theory Spec2Isabelle
  imports Main
begin

section \<open>Python dictionaries\<close>

text \<open>
  A Python \<open>dict\<close> keeps its keys in insertion order and holds each key once. It is
  modelled as an association list: \<open>dict_set\<close> is the assignment \<open>d[k] = v\<close> (an
  existing key keeps its position, a new key goes to the end), \<open>dict_get\<close> is the
  lookup and \<open>dict_keys\<close> the key view.
\<close>

type_synonym ('k, 'v) dict = "('k \<times> 'v) list"

fun dict_set :: "'k \<Rightarrow> 'v \<Rightarrow> ('k, 'v) dict \<Rightarrow> ('k, 'v) dict" where
  "dict_set k v [] = [(k, v)]"
| "dict_set k v ((k', v') # d) =
     (if k = k' then (k, v) # d else (k', v') # dict_set k v d)"

definition dict_get :: "('k, 'v) dict \<Rightarrow> 'k \<Rightarrow> 'v option" where
  "dict_get d k = map_of d k"

definition dict_keys :: "('k, 'v) dict \<Rightarrow> 'k list" where
  "dict_keys d = map fst d"

definition dict_values :: "('k, 'v) dict \<Rightarrow> 'v list" where
  "dict_values d = map snd d"

section \<open>core/schema.py\<close>

definition FIELDS :: "string list" where
  "FIELDS =
    [''original_id'', ''access'', ''access_label'', ''access_minutes'', ''address'',
     ''area'', ''bonus'', ''caractoristic'', ''city'', ''contract'', ''dept'', ''detail'',
     ''facility_name'', ''facility_type'', ''holiday'', ''license'', ''line'', ''name'',
     ''occupation'', ''position'', ''prefecture'', ''price'', ''price_rule'',
     ''required_skill'', ''staff_comment'', ''staff_comment_title'', ''station'',
     ''test_period'', ''title_original'', ''welfare_program'', ''working_hours'',
     ''working_style'']"

text \<open>
  A value of the normalised record is a string, or (under \<open>_extra\<close> only) the nested
  dictionary of the raw pairs that the mapping does not name.
\<close>

datatype field_value = Str string | Extra "(string, string) dict"

definition empty_record :: "(string, field_value) dict" where
  "empty_record = map (\<lambda>f. (f, Str '''')) FIELDS"

text \<open>
  One turn of \<open>for schema_key, source_key in mapping.items()\<close>: the value is copied
  when the target is a key of the record and the source is a key of the raw data.
\<close>

definition normalize_step ::
  "(string, string) dict \<Rightarrow> string \<times> string \<Rightarrow> (string, field_value) dict
     \<Rightarrow> (string, field_value) dict" where
  "normalize_step raw p record =
     (case p of (schema_key, source_key) \<Rightarrow>
        (if schema_key \<in> set (dict_keys record) then
           (case dict_get raw source_key of
              Some v \<Rightarrow> dict_set schema_key (Str v) record
            | None \<Rightarrow> record)
         else record))"

definition normalize ::
  "(string, string) dict \<Rightarrow> (string, string) dict \<Rightarrow> (string, field_value) dict" where
  "normalize raw mapping =
     (let record = fold (normalize_step raw) mapping empty_record;
          mapped_sources = set (dict_values mapping);
          extra = filter (\<lambda>(k, v). k \<notin> mapped_sources) raw
      in if extra \<noteq> [] then dict_set ''_extra'' (Extra extra) record else record)"

text \<open>
  A raw key is consumed by the mapping when a pair of the mapping names it as source
  and has a schema field as target: for such a pair the guard of the loop passes and
  the value is copied.
\<close>

definition consumed :: "(string, string) dict \<Rightarrow> string \<Rightarrow> bool" where
  "consumed mapping k \<longleftrightarrow> (\<exists>sk \<in> set FIELDS. (sk, k) \<in> set mapping)"

section \<open>parsers/dt\_dd.py\<close>

text \<open>
  What a call can raise. The regular-expression library and the network are outside the
  repository; their failures are values of this type.
\<close>

datatype error = KeyError string | FetchError | ReError | BrowserError

text \<open>
  The regular expressions that the parser writes out as literals are modelled as the
  string functions they denote. A character is one of HOL's 256; \<open>is_space\<close> holds of
  those that Python's \<open>\s\<close> and \<open>str.strip\<close> treat as white space.
\<close>

definition is_space :: "char \<Rightarrow> bool" where
  "is_space c =
     (let n = (of_char c :: nat)
      in (9 \<le> n \<and> n \<le> 13) \<or> (28 \<le> n \<and> n \<le> 32) \<or> n = 133 \<or> n = 160)"

definition strip :: "string \<Rightarrow> string" where
  "strip s = rev (dropWhile is_space (rev (dropWhile is_space s)))"

definition NL :: char where
  "NL = CHR 0x0A"

text \<open>
  \<open>re.sub(r"<[^>]+>", "", s)\<close>: at a \<open><\<close>, the tag runs to the next \<open>>\<close> and must hold
  at least one character; a tag is removed and the scan goes on behind it.
\<close>

function sub_tags :: "string \<Rightarrow> string" where
  "sub_tags [] = []"
| "sub_tags (c # s) =
     (if c = CHR ''<'' \<and> takeWhile (\<lambda>x. x \<noteq> CHR ''>'') s \<noteq> []
         \<and> dropWhile (\<lambda>x. x \<noteq> CHR ''>'') s \<noteq> []
      then sub_tags (tl (dropWhile (\<lambda>x. x \<noteq> CHR ''>'') s))
      else c # sub_tags s)"
  by pat_completeness auto
termination
proof (relation "measure length")
  show "wf (measure length)" by simp
next
  fix c :: char and s :: string
  have "length (tl (dropWhile (\<lambda>x. x \<noteq> CHR ''>'') s)) \<le> length s"
    using length_dropWhile_le [of "\<lambda>x. x \<noteq> CHR ''>''" s] by simp
  then show "(tl (dropWhile (\<lambda>x. x \<noteq> CHR ''>'') s), c # s) \<in> measure length"
    by simp
next
  fix c :: char and s :: string
  show "(s, c # s) \<in> measure length" by simp
qed

text \<open>
  \<open><br\s*/?>\<close> at the start of a string: the rest behind the match, if it matches.
\<close>

definition match_br :: "string \<Rightarrow> string option" where
  "match_br s =
     (if take 3 s = ''<br'' then
        (let r = dropWhile is_space (drop 3 s);
             r' = (if take 1 r = ''/'' then drop 1 r else r)
         in if take 1 r' = ''>'' then Some (drop 1 r') else None)
      else None)"

lemma match_br_shorter: "match_br s = Some rest \<Longrightarrow> length rest < length s"
proof -
  assume m: "match_br s = Some rest"
  have le: "length (dropWhile is_space (drop 3 s)) \<le> length s - 3"
    using length_dropWhile_le [of is_space "drop 3 s"] by simp
  from m have p: "take 3 s = ''<br''"
    by (simp add: match_br_def split: if_splits)
  then have "3 \<le> length s"
    by (metis length_take min.cobounded1 length_Cons list.size(3) numeral_3_eq_3)
  moreover from m have "length rest \<le> length (dropWhile is_space (drop 3 s))"
    by (auto simp: match_br_def Let_def split: if_splits)
  ultimately show ?thesis using le by linarith
qed

text \<open>\<open>re.sub(r"<br\s*/?>", "\n", s)\<close>\<close>

function sub_br :: "string \<Rightarrow> string" where
  "sub_br [] = []"
| "sub_br (c # s) =
     (case match_br (c # s) of
        Some rest \<Rightarrow> NL # sub_br rest
      | None \<Rightarrow> c # sub_br s)"
  by pat_completeness auto
termination
  by (relation "measure length") (auto dest: match_br_shorter)

text \<open>\<open>re.sub(r"\n{2,}", "\n", s)\<close>: a run of two or more newlines becomes one.\<close>

function sub_newlines :: "string \<Rightarrow> string" where
  "sub_newlines [] = []"
| "sub_newlines (c # s) =
     (if c = NL \<and> take 1 s = [NL]
      then NL # sub_newlines (dropWhile (\<lambda>x. x = NL) s)
      else c # sub_newlines s)"
  by pat_completeness auto
termination
proof (relation "measure length")
  show "wf (measure length)" by simp
next
  fix c :: char and s :: string
  show "(dropWhile (\<lambda>x. x = NL) s, c # s) \<in> measure length"
    using length_dropWhile_le [of "\<lambda>x. x = NL" s] by simp
next
  fix c :: char and s :: string
  show "(s, c # s) \<in> measure length" by simp
qed

text \<open>
  The first occurrence of a literal in a string: the text before it and the text
  behind it.
\<close>

fun find_sub :: "string \<Rightarrow> string \<Rightarrow> (string \<times> string) option" where
  "find_sub pat [] = (if pat = [] then Some ([], []) else None)"
| "find_sub pat (c # s) =
     (if take (length pat) (c # s) = pat then Some ([], drop (length pat) (c # s))
      else map_option (\<lambda>(before, behind). (c # before, behind)) (find_sub pat s))"

text \<open>\<open>[^>]*>\<close> at the start of a string: the rest behind the first \<open>>\<close>.\<close>

definition skip_to_gt :: "string \<Rightarrow> string option" where
  "skip_to_gt s =
     (case dropWhile (\<lambda>x. x \<noteq> CHR ''>'') s of [] \<Rightarrow> None | _ # rest \<Rightarrow> Some rest)"

text \<open>
  The tail \<open></dt>\s*<dd[^>]*>(.*?)</dd>\<close> of the pair pattern at the start of a
  string: the value (the shortest text up to a \<open></dd>\<close>) and the rest behind the match.
\<close>

definition match_dt_end_dd :: "string \<Rightarrow> (string \<times> string) option" where
  "match_dt_end_dd s =
     (if take 5 s = ''</dt>'' then
        (let s1 = dropWhile is_space (drop 5 s)
         in if take 3 s1 = ''<dd'' then
              (case skip_to_gt (drop 3 s1) of
                 None \<Rightarrow> None
               | Some s2 \<Rightarrow> find_sub ''</dd>'' s2)
            else None)
      else None)"

text \<open>
  The lazy group \<open>(.*?)\<close> of the label, under \<open>re.DOTALL\<close>: the shortest text behind
  which the tail of the pattern matches. Result: label, value, rest.
\<close>

fun lazy_key :: "string \<Rightarrow> (string \<times> string \<times> string) option" where
  "lazy_key [] = None"
| "lazy_key (c # s) =
     (case match_dt_end_dd (c # s) of
        Some (v, rest) \<Rightarrow> Some ([], v, rest)
      | None \<Rightarrow> map_option (\<lambda>(k, v, rest). (c # k, v, rest)) (lazy_key s))"

text \<open>\<open><dt[^>]*>(.*?)</dt>\s*<dd[^>]*>(.*?)</dd>\<close> at the start of a string.\<close>

definition match_dt_dd :: "string \<Rightarrow> (string \<times> string \<times> string) option" where
  "match_dt_dd s =
     (if take 3 s = ''<dt'' then
        (case skip_to_gt (drop 3 s) of None \<Rightarrow> None | Some s1 \<Rightarrow> lazy_key s1)
      else None)"

lemma find_sub_shorter:
  "find_sub pat s = Some (before, behind) \<Longrightarrow> length behind \<le> length s"
  by (induction s arbitrary: before) (auto split: if_splits)

lemma skip_to_gt_shorter: "skip_to_gt s = Some rest \<Longrightarrow> length rest < length s"
  using length_dropWhile_le [of "\<lambda>x. x \<noteq> CHR ''>''" s]
  by (auto simp: skip_to_gt_def split: list.splits)

lemma match_dt_end_dd_shorter:
  "match_dt_end_dd s = Some (v, rest) \<Longrightarrow> length rest < length s"
proof -
  assume m: "match_dt_end_dd s = Some (v, rest)"
  let ?s1 = "dropWhile is_space (drop 5 s)"
  from m obtain s2 where s2: "skip_to_gt (drop 3 ?s1) = Some s2"
    and f: "find_sub ''</dd>'' s2 = Some (v, rest)"
    by (auto simp: match_dt_end_dd_def Let_def split: if_splits option.splits)
  have "length rest \<le> length s2" using f by (rule find_sub_shorter)
  also have "length s2 < length (drop 3 ?s1)" using s2 by (rule skip_to_gt_shorter)
  also have "length (drop 3 ?s1) \<le> length ?s1" by simp
  also have "length ?s1 \<le> length (drop 5 s)" by (rule length_dropWhile_le)
  also have "length (drop 5 s) \<le> length s" by simp
  finally show ?thesis .
qed

lemma lazy_key_shorter: "lazy_key s = Some (k, v, rest) \<Longrightarrow> length rest < length s"
proof (induction s arbitrary: k)
  case Nil
  then show ?case by simp
next
  case (Cons c s)
  show ?case
  proof (cases "match_dt_end_dd (c # s)")
    case None
    with Cons.prems obtain k' where "lazy_key s = Some (k', v, rest)"
      by auto
    then have "length rest < length s" by (rule Cons.IH)
    then show ?thesis by simp
  next
    case (Some p)
    with Cons.prems have "match_dt_end_dd (c # s) = Some (v, rest)"
      by (cases p) simp
    then show ?thesis by (rule match_dt_end_dd_shorter)
  qed
qed

lemma match_dt_dd_shorter:
  "match_dt_dd s = Some (k, v, rest) \<Longrightarrow> length rest < length s"
proof -
  assume m: "match_dt_dd s = Some (k, v, rest)"
  then obtain s1 where s1: "skip_to_gt (drop 3 s) = Some s1"
    and l: "lazy_key s1 = Some (k, v, rest)"
    by (auto simp: match_dt_dd_def split: if_splits option.splits)
  have "length rest < length s1" using l by (rule lazy_key_shorter)
  also have "length s1 < length (drop 3 s)" using s1 by (rule skip_to_gt_shorter)
  also have "length (drop 3 s) \<le> length s" by simp
  finally show ?thesis .
qed

text \<open>\<open>re.findall\<close> of the pair pattern: the matches from left to right, not overlapping.\<close>

function findall_dt_dd :: "string \<Rightarrow> (string \<times> string) list" where
  "findall_dt_dd [] = []"
| "findall_dt_dd (c # s) =
     (case match_dt_dd (c # s) of
        Some (k, v, rest) \<Rightarrow> (k, v) # findall_dt_dd rest
      | None \<Rightarrow> findall_dt_dd s)"
  by pat_completeness auto
termination
  by (relation "measure length") (auto dest: match_dt_dd_shorter)

text \<open>
  \<open>extract_ids\<close>: the matches of the identifier pattern, each kept at its first
  occurrence. \<open>re.findall\<close> with a pattern from the configuration is a parameter; it
  raises on a pattern it cannot compile.
\<close>

fun unique_loop :: "'a list \<Rightarrow> 'a set \<Rightarrow> 'a list \<Rightarrow> 'a list" where
  "unique_loop [] seen unique = unique"
| "unique_loop (i # ids) seen unique =
     (if i \<notin> seen then unique_loop ids (insert i seen) (unique @ [i])
      else unique_loop ids seen unique)"

definition extract_ids ::
  "(string \<Rightarrow> string \<Rightarrow> error + 'a list) \<Rightarrow> string \<Rightarrow> string \<Rightarrow> error + 'a list" where
  "extract_ids re_findall html pattern =
     (case re_findall pattern html of
        Inl e \<Rightarrow> Inl e
      | Inr ids \<Rightarrow> Inr (unique_loop ids {} []))"

text \<open>\<open>parse_dt_dd\<close>: one turn of the loop over the pairs, and the whole pass.\<close>

definition parse_dt_dd_step ::
  "string \<times> string \<Rightarrow> (string, string) dict \<Rightarrow> (string, string) dict" where
  "parse_dt_dd_step p data =
     (case p of (key0, val0) \<Rightarrow>
        (let key = strip (sub_tags key0);
             val1 = sub_br val0;
             val2 = sub_tags val1;
             val = strip (sub_newlines val2)
         in if key \<noteq> [] \<and> key \<notin> set (dict_keys data) then dict_set key val data
            else data))"

definition parse_dt_dd :: "string \<Rightarrow> (string, string) dict" where
  "parse_dt_dd html = fold parse_dt_dd_step (findall_dt_dd html) []"

text \<open>
  \<open>parse_meta\<close>. \<open>re.search(pat, html, re.DOTALL)\<close> followed by \<open>m.group(1)\<close> is a
  parameter: no match, the text of group 1, or an error.
\<close>

definition default_meta_patterns :: "(string, string) dict" where
  "default_meta_patterns = [(''title'', ''<title[^>]*>(.*?)</title>'')]"

definition dict_update :: "('k, 'v) dict \<Rightarrow> ('k, 'v) dict \<Rightarrow> ('k, 'v) dict" where
  "dict_update d other = fold (\<lambda>(k, v). dict_set k v) other d"

fun parse_meta_loop ::
  "(string \<Rightarrow> string \<Rightarrow> error + string option) \<Rightarrow> string \<Rightarrow> (string, string) dict
     \<Rightarrow> (string, string) dict \<Rightarrow> error + (string, string) dict" where
  "parse_meta_loop re_search html [] meta = Inr meta"
| "parse_meta_loop re_search html ((key, pat) # patterns) meta =
     (case re_search pat html of
        Inl e \<Rightarrow> Inl e
      | Inr None \<Rightarrow> parse_meta_loop re_search html patterns meta
      | Inr (Some g) \<Rightarrow>
          parse_meta_loop re_search html patterns (dict_set key (strip (sub_tags g)) meta))"

definition parse_meta ::
  "(string \<Rightarrow> string \<Rightarrow> error + string option) \<Rightarrow> string \<Rightarrow> (string, string) dict option
     \<Rightarrow> error + (string, string) dict" where
  "parse_meta re_search html meta_patterns =
     (let patterns = dict_update default_meta_patterns
                       (case meta_patterns of None \<Rightarrow> [] | Some mp \<Rightarrow> mp)
      in parse_meta_loop re_search html patterns [])"


section \<open>engines/http\_engine.py\<close>

text \<open>
  The site configuration is a dictionary read from YAML. Each key that the functions
  below read is a field: \<open>None\<close> when the key is absent, otherwise a value of the
  type the engine expects there.
\<close>

record site_config =
  list_url :: "string option"
  id_pattern :: "string option"
  base_url :: "string option"
  start_page :: "int option"
  end_page :: "int option"
  detail_url :: "string option"
  id_field :: "string option"
  meta_patterns :: "(string, string) dict option"

text \<open>\<open>str(page)\<close> for an integer.\<close>

fun str_nat :: "nat \<Rightarrow> string" where
  "str_nat n =
     (if n < 10 then [''0123456789'' ! n]
      else str_nat (n div 10) @ [''0123456789'' ! (n mod 10)])"

definition str_int :: "int \<Rightarrow> string" where
  "str_int i = (if i < 0 then CHR ''-'' # str_nat (nat (- i)) else str_nat (nat i))"

text \<open>
  \<open>s.replace(old, new)\<close> for a non-empty \<open>old\<close> (both calls in the engine pass a
  literal): every occurrence, from left to right, not overlapping.
\<close>

function str_replace :: "string \<Rightarrow> string \<Rightarrow> string \<Rightarrow> string" where
  "str_replace old new [] = []"
| "str_replace old new (c # s) =
     (if old \<noteq> [] \<and> take (length old) (c # s) = old
      then new @ str_replace old new (drop (length old) (c # s))
      else c # str_replace old new s)"
  by pat_completeness auto
termination
  by (relation "measure (\<lambda>(old, new, s). length s)") auto

text \<open>
  The reads of the configuration at the head of \<open>crawl_list_pages\<close>: the defaults of
  \<open>config.get\<close>, the last page under the cap \<open>max_pages\<close> (a cap of \<open>None\<close> or 0 is
  no cap), and the URL of a list page.
\<close>

definition get_base_url :: "site_config \<Rightarrow> string" where
  "get_base_url config = (case base_url config of None \<Rightarrow> [] | Some b \<Rightarrow> b)"

definition get_start_page :: "site_config \<Rightarrow> int" where
  "get_start_page config = (case start_page config of None \<Rightarrow> 1 | Some p \<Rightarrow> p)"

definition get_end_page :: "site_config \<Rightarrow> int option \<Rightarrow> int" where
  "get_end_page config max_pages =
     (let end_page' = (case end_page config of None \<Rightarrow> 1 | Some p \<Rightarrow> p)
      in case max_pages of
           None \<Rightarrow> end_page'
         | Some m \<Rightarrow> if m \<noteq> 0 then min end_page' (get_start_page config + m - 1)
                     else end_page')"

definition list_page_url :: "site_config \<Rightarrow> string \<Rightarrow> int \<Rightarrow> string" where
  "list_page_url config list_url' page =
     str_replace ''{page}'' (str_int page) (get_base_url config @ list_url')"

text \<open>
  The state of one pagination run: the identifiers collected so far, the set of those
  seen, and the log of the calls of \<open>fetch_html\<close> (page number and URL), in order.
\<close>

record crawl_state =
  all_ids :: "string list"
  seen :: "string set"
  fetched :: "(int \<times> string) list"

definition initial_state :: crawl_state where
  "initial_state = \<lparr>all_ids = [], seen = {}, fetched = []\<rparr>"

text \<open>
  The network is a parameter: \<open>fetch_html n url\<close> is what the \<open>n\<close>-th request of the
  run (counted from 0) returns for \<open>url\<close>, the markup or an error.

  The body of the loop over the pages. The flag of the result says that the loop
  leaves by \<open>break\<close>. An error raised by the fetch or by the extraction is caught: the
  state keeps its identifiers and the loop goes on.
\<close>

definition page_body ::
  "(nat \<Rightarrow> string \<Rightarrow> error + string) \<Rightarrow> (string \<Rightarrow> string \<Rightarrow> error + string list)
     \<Rightarrow> site_config \<Rightarrow> string \<Rightarrow> string \<Rightarrow> int \<Rightarrow> crawl_state
     \<Rightarrow> crawl_state \<times> bool" where
  "page_body fetch_html re_findall config list_url' id_pattern' page st =
     (let url = list_page_url config list_url' page;
          st1 = st\<lparr>fetched := fetched st @ [(page, url)]\<rparr>
      in case fetch_html (length (fetched st)) url of
           Inl e \<Rightarrow> (st1, False)
         | Inr html \<Rightarrow>
             (case extract_ids re_findall html id_pattern' of
                Inl e \<Rightarrow> (st1, False)
              | Inr ids \<Rightarrow>
                  (let new_ids = filter (\<lambda>i. i \<notin> seen st) ids;
                       st2 = st1\<lparr>seen := seen st \<union> set new_ids,
                                 all_ids := all_ids st @ new_ids\<rparr>
                   in (st2, new_ids = [] \<and> page > get_start_page config))))"

fun pages_loop ::
  "(int \<Rightarrow> crawl_state \<Rightarrow> crawl_state \<times> bool) \<Rightarrow> int list \<Rightarrow> crawl_state
     \<Rightarrow> crawl_state \<times> bool" where
  "pages_loop body [] st = (st, False)"
| "pages_loop body (page # pages) st =
     (case body page st of
        (st', True) \<Rightarrow> (st', True)
      | (st', False) \<Rightarrow> pages_loop body pages st')"

definition crawl_pages ::
  "(nat \<Rightarrow> string \<Rightarrow> error + string) \<Rightarrow> (string \<Rightarrow> string \<Rightarrow> error + string list)
     \<Rightarrow> site_config \<Rightarrow> int option \<Rightarrow> error + crawl_state" where
  "crawl_pages fetch_html re_findall config max_pages =
     (case list_url config of
        None \<Rightarrow> Inl (KeyError ''list_url'')
      | Some list_url' \<Rightarrow>
          (case id_pattern config of
             None \<Rightarrow> Inl (KeyError ''id_pattern'')
           | Some id_pattern' \<Rightarrow>
               Inr (fst (pages_loop
                     (page_body fetch_html re_findall config list_url' id_pattern')
                     [get_start_page config..get_end_page config max_pages]
                     initial_state))))"

text \<open>\<open>crawl_list_pages\<close> returns the identifiers of the final state.\<close>

definition crawl_list_pages ::
  "(nat \<Rightarrow> string \<Rightarrow> error + string) \<Rightarrow> (string \<Rightarrow> string \<Rightarrow> error + string list)
     \<Rightarrow> site_config \<Rightarrow> int option \<Rightarrow> error + string list" where
  "crawl_list_pages fetch_html re_findall config max_pages =
     (case crawl_pages fetch_html re_findall config max_pages of
        Inl e \<Rightarrow> Inl e
      | Inr st \<Rightarrow> Inr (all_ids st))"

text \<open>
  For stating what a run collects: the matches that the \<open>n\<close>-th request delivers
  (none when the fetch or the pattern fails), and the matches along a log of requests,
  in the order of the requests.
\<close>

definition page_matches ::
  "(nat \<Rightarrow> string \<Rightarrow> error + string) \<Rightarrow> (string \<Rightarrow> string \<Rightarrow> error + string list)
     \<Rightarrow> string \<Rightarrow> nat \<Rightarrow> string \<Rightarrow> string list" where
  "page_matches fetch_html re_findall id_pattern' n url =
     (case fetch_html n url of
        Inl e \<Rightarrow> []
      | Inr html \<Rightarrow> (case re_findall id_pattern' html of Inl e \<Rightarrow> [] | Inr ids \<Rightarrow> ids))"

definition log_matches ::
  "(nat \<Rightarrow> string \<Rightarrow> error + string) \<Rightarrow> (string \<Rightarrow> string \<Rightarrow> error + string list)
     \<Rightarrow> string \<Rightarrow> (int \<times> string) list \<Rightarrow> string list" where
  "log_matches fetch_html re_findall id_pattern' log =
     concat (map (\<lambda>(n, (page, url)). page_matches fetch_html re_findall id_pattern' n url)
               (enumerate 0 log))"

text \<open>
  What every turn of the loop keeps: the set of seen identifiers is the set of the
  collected ones, and the collected identifiers are the matches along the log, each
  at its first occurrence.
\<close>

definition crawl_inv ::
  "(nat \<Rightarrow> string \<Rightarrow> error + string) \<Rightarrow> (string \<Rightarrow> string \<Rightarrow> error + string list)
     \<Rightarrow> string \<Rightarrow> crawl_state \<Rightarrow> bool" where
  "crawl_inv F R pat st \<longleftrightarrow>
     seen st = set (all_ids st)
     \<and> all_ids st = unique_loop (log_matches F R pat (fetched st)) {} []"

text \<open>
  \<open>crawl_detail\<close>: one request; an error of the fetch or of the meta pass leaves the
  function. The identifier is written last.
\<close>

definition crawl_detail ::
  "(string \<Rightarrow> error + string) \<Rightarrow> (string \<Rightarrow> string \<Rightarrow> error + string option)
     \<Rightarrow> site_config \<Rightarrow> string \<Rightarrow> error + (string, string) dict" where
  "crawl_detail fetch_html re_search config item_id =
     (let base_url' = get_base_url config
      in case detail_url config of
           None \<Rightarrow> Inl (KeyError ''detail_url'')
         | Some detail_url0 \<Rightarrow>
             (let detail_url' = str_replace ''{id}'' item_id detail_url0;
                  url = base_url' @ detail_url'
              in case fetch_html url of
                   Inl e \<Rightarrow> Inl e
                 | Inr html \<Rightarrow>
                     (let meta_patterns' =
                            (case meta_patterns config of None \<Rightarrow> Some [] | Some mp \<Rightarrow> Some mp)
                      in case parse_meta re_search html meta_patterns' of
                           Inl e \<Rightarrow> Inl e
                         | Inr meta \<Rightarrow>
                             (let data = parse_dt_dd html;
                                  data' = dict_update data meta;
                                  id_field' = (case id_field config of
                                                 None \<Rightarrow> ''original_id'' | Some f \<Rightarrow> f)
                              in Inr (dict_set id_field' item_id data')))))"

section \<open>crawler.py: scrolling\<close>

text \<open>
  The page is a parameter: \<open>page n\<close> is what the \<open>n\<close>-th round of scrolling to the
  bottom, waiting and reading \<open>document.body.scrollHeight\<close> gives (counted from 0), a
  height or an error of the browser. The loop returns the counter \<open>scroll_attempts\<close>
  and the way it ended; the number of samples read is the counter when the cap ends
  the loop, and one more otherwise.
\<close>

datatype scroll_end = Stable | Capped | Failed error

definition max_attempts :: nat where
  "max_attempts = 50"

function scroll_loop ::
  "(nat \<Rightarrow> error + int) \<Rightarrow> int \<Rightarrow> nat \<Rightarrow> nat \<times> scroll_end" where
  "scroll_loop page previous_height scroll_attempts =
     (if scroll_attempts < max_attempts then
        (case page scroll_attempts of
           Inl e \<Rightarrow> (scroll_attempts, Failed e)
         | Inr current_height \<Rightarrow>
             if current_height = previous_height then (scroll_attempts, Stable)
             else scroll_loop page current_height (scroll_attempts + 1))
      else (scroll_attempts, Capped))"
  by pat_completeness auto
termination
  by (relation "measure (\<lambda>(page, previous_height, scroll_attempts).
        max_attempts - scroll_attempts)") auto

text \<open>The branch of \<open>_handle_scrolling\<close> taken when no \<open>scroll_count\<close> is configured.\<close>

definition scroll_to_bottom :: "(nat \<Rightarrow> error + int) \<Rightarrow> nat \<times> scroll_end" where
  "scroll_to_bottom page = scroll_loop page 0 0"

section \<open>An example site\<close>

text \<open>
  \<open>re.findall(r"item-(\d+)", s)\<close>: the digits behind each \<open>item-\<close>, from left to right.
  The regular-expression library of the example compiles this pattern only.
\<close>

definition is_digit :: "char \<Rightarrow> bool" where
  "is_digit c = (let n = (of_char c :: nat) in 48 \<le> n \<and> n \<le> 57)"

function findall_item :: "string \<Rightarrow> string list" where
  "findall_item [] = []"
| "findall_item (c # s) =
     (if take 5 (c # s) = ''item-'' \<and> takeWhile is_digit (drop 4 s) \<noteq> []
      then takeWhile is_digit (drop 4 s) # findall_item (dropWhile is_digit (drop 4 s))
      else findall_item s)"
  by pat_completeness auto
termination
proof (relation "measure length")
  show "wf (measure length)" by simp
next
  fix c :: char and s :: string
  have "length (dropWhile is_digit (drop 4 s)) \<le> length (drop 4 s)"
    by (rule length_dropWhile_le)
  then show "(dropWhile is_digit (drop 4 s), c # s) \<in> measure length"
    by simp
next
  fix c :: char and s :: string
  show "(s, c # s) \<in> measure length" by simp
qed

definition item_pattern :: string where
  "item_pattern = ''item-('' @ [CHR 0x5C] @ ''d+)''"

definition example_findall :: "string \<Rightarrow> string \<Rightarrow> error + string list" where
  "example_findall pattern html =
     (if pattern = item_pattern then Inr (findall_item html) else Inl ReError)"

text \<open>
  A site with two list pages: page 1 holds \<open>item-1, item-2, item-1\<close>, page 2 holds
  \<open>item-2\<close>, every other URL fails.
\<close>

definition example_config :: site_config where
  "example_config =
     \<lparr>list_url = Some ''/list?p={page}'', id_pattern = Some item_pattern,
      base_url = Some ''http://site.example'', start_page = Some 1, end_page = Some 2,
      detail_url = Some ''/job/{id}'', id_field = None, meta_patterns = None\<rparr>"

definition example_fetch :: "nat \<Rightarrow> string \<Rightarrow> error + string" where
  "example_fetch n url =
     (if url = ''http://site.example/list?p=1'' then Inr ''item-1, item-2, item-1''
      else if url = ''http://site.example/list?p=2'' then Inr ''item-2''
      else Inl FetchError)"

text \<open>
  The same site with three list pages and a failing second one: page 1 holds
  \<open>item-1\<close>, the request for page 2 fails, page 3 holds \<open>item-3 item-1\<close>.
\<close>

definition flaky_fetch :: "nat \<Rightarrow> string \<Rightarrow> error + string" where
  "flaky_fetch n url =
     (if url = ''http://site.example/list?p=1'' then Inr ''item-1''
      else if url = ''http://site.example/list?p=3'' then Inr ''item-3 item-1''
      else Inl FetchError)"

text \<open>
  \<open>re.search(r"<title[^>]*>(.*?)</title>", s, re.DOTALL)\<close> and its group 1: the text
  between the first title tag that is closed and its closing tag. The library of the
  example compiles this pattern only. The detail page of item 7 has a title and three
  label/value pairs, two of them under keys that the meta pass and the identifier
  also write.
\<close>

fun search_title :: "string \<Rightarrow> string option" where
  "search_title [] = None"
| "search_title (c # s) =
     (if take 6 (c # s) = ''<title'' then
        (case skip_to_gt (drop 5 s) of
           None \<Rightarrow> search_title s
         | Some r \<Rightarrow>
             (case find_sub ''</title>'' r of
                None \<Rightarrow> search_title s
              | Some (g, behind) \<Rightarrow> Some g))
      else search_title s)"

definition example_search :: "string \<Rightarrow> string \<Rightarrow> error + string option" where
  "example_search pattern html =
     (if pattern = ''<title[^>]*>(.*?)</title>'' then Inr (search_title html)
      else Inl ReError)"

definition detail_fetch :: "string \<Rightarrow> error + string" where
  "detail_fetch url =
     (if url = ''http://site.example/job/7''
      then Inr (''<title>Nurse <b>wanted</b></title><dt>title</dt><dd>old</dd>''
                @ ''<dt>original_id</dt><dd>9</dd><dt>area</dt><dd>Kobe</dd>'')
      else Inl FetchError)"

section \<open>extractors/images.py\<close>

text \<open>
  Strings: \<open>str.lower\<close> on the 256 characters, the lower case that \<open>re.IGNORECASE\<close>
  compares an ASCII literal with, \<open>str.endswith\<close>, and the search of a lower-case
  literal without regard to case.
\<close>

definition to_lower :: "char \<Rightarrow> char" where
  "to_lower c =
     (let n = (of_char c :: nat)
      in if (65 \<le> n \<and> n \<le> 90) \<or> (192 \<le> n \<and> n \<le> 222 \<and> n \<noteq> 215) then char_of (n + 32)
         else c)"

definition str_lower :: "string \<Rightarrow> string" where
  "str_lower s = map to_lower s"

definition ascii_lower :: "char \<Rightarrow> char" where
  "ascii_lower c =
     (let n = (of_char c :: nat) in if 65 \<le> n \<and> n \<le> 90 then char_of (n + 32) else c)"

definition endswith :: "string \<Rightarrow> string \<Rightarrow> bool" where
  "endswith s suffix \<longleftrightarrow>
     length suffix \<le> length s \<and> drop (length s - length suffix) s = suffix"

fun contains_ci :: "string \<Rightarrow> string \<Rightarrow> bool" where
  "contains_ci literal [] = (literal = [])"
| "contains_ci literal (c # s) =
     (map ascii_lower (take (length literal) (c # s)) = literal \<or> contains_ci literal s)"

text \<open>
  \<open>_should_exclude\<close> of the image extractor. The four patterns are \<open>data:image\<close>,
  \<open>\.ico$\<close> (the end of the string, or the newline that ends it), \<open>pixel\.gif\<close> and
  \<open>1x1\.\<close>, each searched without regard to case.
\<close>

definition should_exclude_image :: "string \<Rightarrow> bool" where
  "should_exclude_image src \<longleftrightarrow>
     src = [] \<or> strip src = []
     \<or> contains_ci ''data:image'' src
     \<or> endswith (map ascii_lower src) ''.ico''
     \<or> endswith (map ascii_lower src) (''.ico'' @ [NL])
     \<or> contains_ci ''pixel.gif'' src
     \<or> contains_ci ''1x1.'' src"

text \<open>
  The browser is a parameter. An image element is its \<open>get_attribute\<close>: for a name, the
  value, \<open>None\<close> when the attribute is absent, or an error. A page has its URL, the
  result of \<open>query_selector_all('img')\<close> and the result of the script that collects the
  computed background images. \<open>urljoin\<close> and the path of \<open>urlparse\<close> are parameters of
  the library; both can raise.
\<close>

type_synonym img_element = "string \<Rightarrow> error + string option"

record bg_raw =
  raw_url :: string
  raw_tag_name :: string
  raw_class_name :: string
  raw_id :: string

record browser_page =
  page_url :: string
  img_elements :: "error + img_element list"
  bg_eval :: "error + bg_raw list"

text \<open>
  The entry of an inline image. The key \<open>attributes\<close> of the source holds the width and
  the height that are present and not empty; \<open>srcset\<close> is a key only when it is
  present and not empty.
\<close>

record img_data =
  img_url :: string
  img_alt :: string
  img_title :: string
  original_src :: string
  img_type :: string
  img_width :: "string option"
  img_height :: "string option"
  img_srcset :: "string option"

record bg_image =
  bg_url :: string
  bg_tag_name :: string
  bg_class_name :: string
  bg_id :: string
  bg_type :: string

text \<open>
  One read of an attribute inside the \<open>try\<close> of \<open>_extract_img_data\<close>: \<open>None\<close> when the
  read raises, otherwise the value when it is present and not empty.
\<close>

definition read_attr :: "img_element \<Rightarrow> string \<Rightarrow> string option option" where
  "read_attr element name =
     (case element name of
        Inl e \<Rightarrow> None
      | Inr None \<Rightarrow> Some None
      | Inr (Some v) \<Rightarrow> Some (if v = [] then None else Some v))"

definition extract_img_data ::
  "(string \<Rightarrow> string \<Rightarrow> error + string) \<Rightarrow> img_element \<Rightarrow> string \<Rightarrow> img_data option" where
  "extract_img_data urljoin element current_url =
     Option.bind (read_attr element ''src'') (\<lambda>src_opt.
       case src_opt of
         None \<Rightarrow> None
       | Some src \<Rightarrow>
           if should_exclude_image src then None
           else
             Option.bind (case urljoin current_url src of Inl e \<Rightarrow> None | Inr u \<Rightarrow> Some u)
               (\<lambda>absolute_url.
             Option.bind (read_attr element ''alt'') (\<lambda>alt.
             Option.bind (read_attr element ''title'') (\<lambda>title.
             Option.bind (read_attr element ''width'') (\<lambda>width.
             Option.bind (read_attr element ''height'') (\<lambda>height.
             Option.bind (read_attr element ''srcset'') (\<lambda>srcset.
               Some \<lparr>img_url = absolute_url,
                     img_alt = (case alt of None \<Rightarrow> [] | Some a \<Rightarrow> a),
                     img_title = (case title of None \<Rightarrow> [] | Some t \<Rightarrow> t),
                     original_src = src,
                     img_type = ''img'',
                     img_width = width,
                     img_height = height,
                     img_srcset = srcset\<rparr>)))))))"

text \<open>
  \<open>_extract_background_images\<close>: the entries that are not excluded, with the URL
  resolved. An error of the script or of a resolution leaves the function by its
  \<open>except\<close>, which returns the empty list.
\<close>

fun bg_loop ::
  "(string \<Rightarrow> string \<Rightarrow> error + string) \<Rightarrow> string \<Rightarrow> bg_raw list \<Rightarrow> bg_image list
     \<Rightarrow> error + bg_image list" where
  "bg_loop urljoin current_url [] result = Inr result"
| "bg_loop urljoin current_url (bg_img # rest) result =
     (if \<not> should_exclude_image (raw_url bg_img) then
        (case urljoin current_url (raw_url bg_img) of
           Inl e \<Rightarrow> Inl e
         | Inr u \<Rightarrow>
             bg_loop urljoin current_url rest
               (result @ [\<lparr>bg_url = u, bg_tag_name = raw_tag_name bg_img,
                            bg_class_name = raw_class_name bg_img, bg_id = raw_id bg_img,
                            bg_type = ''background''\<rparr>]))
      else bg_loop urljoin current_url rest result)"

definition extract_background_images ::
  "(string \<Rightarrow> string \<Rightarrow> error + string) \<Rightarrow> browser_page \<Rightarrow> string \<Rightarrow> bg_image list" where
  "extract_background_images urljoin page current_url =
     (case bg_eval page of
        Inl e \<Rightarrow> []
      | Inr bg_images \<Rightarrow>
          (case bg_loop urljoin current_url bg_images [] of
             Inl e \<Rightarrow> []
           | Inr result \<Rightarrow> result))"

text \<open>
  \<open>_categorize_images\<close>. \<open>bump\<close> is \<open>categories[k] = categories.get(k, 0) + 1\<close>;
  \<open>first_extension\<close> is the loop over the extensions with its \<open>break\<close>.
\<close>

definition image_extensions :: "string list" where
  "image_extensions = [''.jpg'', ''.jpeg'', ''.png'', ''.gif'', ''.webp'', ''.svg'', ''.bmp'']"

definition bump :: "(string, nat) dict \<Rightarrow> string \<Rightarrow> (string, nat) dict" where
  "bump categories k =
     dict_set k ((case dict_get categories k of None \<Rightarrow> 0 | Some n \<Rightarrow> n) + 1) categories"

fun first_extension :: "string \<Rightarrow> string list \<Rightarrow> string option" where
  "first_extension path [] = None"
| "first_extension path (ext # exts) =
     (if endswith path ext then Some ext else first_extension path exts)"

definition categorize_step ::
  "(string \<Rightarrow> error + string) \<Rightarrow> img_data \<Rightarrow> (string, nat) dict \<Rightarrow> (string, nat) dict" where
  "categorize_step urlparse_path img categories =
     (case urlparse_path (img_url img) of
        Inl e \<Rightarrow> bump categories ''unknown''
      | Inr parsed_path \<Rightarrow>
          (let path = str_lower parsed_path
           in case first_extension path image_extensions of
                Some ext \<Rightarrow> bump categories (str_replace ''.'' [] ext)
              | None \<Rightarrow> bump categories ''unknown''))"

definition categorize_images ::
  "(string \<Rightarrow> error + string) \<Rightarrow> img_data list \<Rightarrow> (string, nat) dict" where
  "categorize_images urlparse_path imgs = fold (categorize_step urlparse_path) imgs []"

text \<open>For stating the histogram: the bucket that one image is counted in.\<close>

definition image_bucket :: "(string \<Rightarrow> error + string) \<Rightarrow> img_data \<Rightarrow> string" where
  "image_bucket urlparse_path img =
     (case urlparse_path (img_url img) of
        Inl e \<Rightarrow> ''unknown''
      | Inr parsed_path \<Rightarrow>
          (case first_extension (str_lower parsed_path) image_extensions of
             Some ext \<Rightarrow> str_replace ''.'' [] ext
           | None \<Rightarrow> ''unknown''))"

text \<open>
  \<open>extract_all_images\<close>. The result is \<open>None\<close> for the empty dictionary that the
  outer \<open>except\<close> returns, which only the query for the image elements can reach.
\<close>

record image_bundle =
  images :: "img_data list"
  background_images :: "bg_image list"
  total_count :: nat
  by_type :: "(string, nat) dict"

definition extract_all_images ::
  "(string \<Rightarrow> string \<Rightarrow> error + string) \<Rightarrow> (string \<Rightarrow> error + string) \<Rightarrow> browser_page
     \<Rightarrow> image_bundle option" where
  "extract_all_images urljoin urlparse_path page =
     (let current_url = page_url page
      in case img_elements page of
           Inl e \<Rightarrow> None
         | Inr elements \<Rightarrow>
             (let imgs = List.map_filter (\<lambda>img. extract_img_data urljoin img current_url)
                           elements;
                  bg_images = extract_background_images urljoin page current_url
              in Some \<lparr>images = imgs,
                       background_images = bg_images,
                       total_count = length imgs + length bg_images,
                       by_type = categorize_images urlparse_path imgs\<rparr>))"

section \<open>An example page with images\<close>

text \<open>
  The library of the example: \<open>urljoin\<close> of a base with an absolute path puts the path
  behind \<open>http://site.example\<close>; the path of a URL is what follows that prefix. The
  page has three image elements (a photograph, a favicon, which is excluded, and a
  picture without extension) and one background image.
\<close>

definition example_urljoin :: "string \<Rightarrow> string \<Rightarrow> error + string" where
  "example_urljoin base href = Inr (''http://site.example'' @ href)"

definition example_path :: "string \<Rightarrow> error + string" where
  "example_path url = Inr (drop (length ''http://site.example'') url)"

definition element_with_src :: "string \<Rightarrow> img_element" where
  "element_with_src src name = (if name = ''src'' then Inr (Some src) else Inr None)"

definition example_page :: browser_page where
  "example_page =
     \<lparr>page_url = ''http://site.example/jobs'',
      img_elements = Inr [element_with_src ''/img/Ward.JPG'',
                          element_with_src ''/favicon.ico'',
                          element_with_src ''/img/logo''],
      bg_eval = Inr [\<lparr>raw_url = ''/img/hero.png'', raw_tag_name = ''div'',
                       raw_class_name = ''hero'', raw_id = ''top''\<rparr>]\<rparr>"

section \<open>Facts about dictionaries\<close>

lemma dict_keys_Nil: "dict_keys [] = []"
  by (simp add: dict_keys_def)

lemma dict_keys_Cons: "dict_keys ((k, v) # d) = k # dict_keys d"
  by (simp add: dict_keys_def)

lemma dict_keys_dict_set:
  "dict_keys (dict_set k v d) =
     (if k \<in> set (dict_keys d) then dict_keys d else dict_keys d @ [k])"
proof (induction d)
  case Nil
  show ?case by (simp add: dict_keys_Nil dict_keys_Cons)
next
  case (Cons p d)
  obtain k' v' where p: "p = (k', v')" by (cases p)
  show ?case using Cons.IH by (simp add: p dict_keys_Cons)
qed

lemma dict_keys_set: "set (dict_keys (dict_set k v d)) = insert k (set (dict_keys d))"
  by (auto simp: dict_keys_dict_set)

lemma dict_set_distinct:
  "distinct (dict_keys d) \<Longrightarrow> distinct (dict_keys (dict_set k v d))"
  by (simp add: dict_keys_dict_set)

lemma dict_get_set: "dict_get (dict_set k v d) k' = (if k' = k then Some v else dict_get d k')"
  by (induction d) (auto simp: dict_get_def)

lemma dict_get_None: "dict_get d k = None \<longleftrightarrow> k \<notin> set (dict_keys d)"
  by (simp add: dict_get_def dict_keys_def map_of_eq_None_iff)


section \<open>Normalisation onto the schema\<close>

lemma length_FIELDS: "length FIELDS = 32"
  by (simp add: FIELDS_def)

lemma distinct_FIELDS: "distinct FIELDS"
  by (simp add: FIELDS_def)

lemma extra_not_field: "''_extra'' \<notin> set FIELDS"
  by (simp add: FIELDS_def)

lemma dict_keys_empty_record: "dict_keys empty_record = FIELDS"
  by (simp add: empty_record_def dict_keys_def comp_def)

lemma dict_keys_normalize_step: "dict_keys (normalize_step raw p record) = dict_keys record"
  by (cases p) (simp add: normalize_step_def dict_keys_dict_set split: option.splits)

lemma dict_keys_fold_step:
  "dict_keys (fold (normalize_step raw) mapping r) = dict_keys r"
  by (induction mapping arbitrary: r) (simp_all add: dict_keys_normalize_step)

lemma filter_extra_empty:
  "(filter (\<lambda>(k, v). k \<notin> S) raw = []) \<longleftrightarrow> (\<forall>k \<in> set (dict_keys raw). k \<in> S)"
  by (induction raw) (auto simp: dict_keys_def)

lemma map_of_const_field:
  "f \<in> set xs \<Longrightarrow> map_of (map (\<lambda>f. (f, c)) xs) f = Some c"
  by (induction xs) auto

lemma dict_get_normalize_step_other:
  "sk \<noteq> fst p \<Longrightarrow> dict_get (normalize_step raw p r) sk = dict_get r sk"
  by (cases p) (simp add: normalize_step_def dict_get_set split: option.splits)

lemma dict_get_normalize_step_same:
  "dict_get (normalize_step raw (a, b) r) a =
     (if a \<in> set (dict_keys r) then
        (case dict_get raw b of Some v \<Rightarrow> Some (Str v) | None \<Rightarrow> dict_get r a)
      else dict_get r a)"
  by (simp add: normalize_step_def dict_get_set split: option.splits)

lemma dict_get_fold_step:
  "distinct (dict_keys mapping) \<Longrightarrow>
   dict_get (fold (normalize_step raw) mapping r) sk =
     (case map_of mapping sk of
        None \<Rightarrow> dict_get r sk
      | Some src \<Rightarrow>
          (if sk \<in> set (dict_keys r) then
             (case dict_get raw src of Some v \<Rightarrow> Some (Str v) | None \<Rightarrow> dict_get r sk)
           else dict_get r sk))"
proof (induction mapping arbitrary: r)
  case Nil
  show ?case by simp
next
  case (Cons p m)
  obtain a b where p: "p = (a, b)" by (cases p)
  from Cons.prems have d: "distinct (dict_keys m)" and a: "a \<notin> set (dict_keys m)"
    by (simp_all add: p dict_keys_Cons)
  have ih: "dict_get (fold (normalize_step raw) m (normalize_step raw p r)) sk =
     (case map_of m sk of
        None \<Rightarrow> dict_get (normalize_step raw p r) sk
      | Some src \<Rightarrow>
          (if sk \<in> set (dict_keys r) then
             (case dict_get raw src of Some v \<Rightarrow> Some (Str v)
              | None \<Rightarrow> dict_get (normalize_step raw p r) sk)
           else dict_get (normalize_step raw p r) sk))"
    using Cons.IH [OF d, of "normalize_step raw p r"]
    unfolding dict_keys_normalize_step .
  show ?case
  proof (cases "sk = a")
    case True
    have "map_of m a = None" using a by (simp add: map_of_eq_None_iff dict_keys_def)
    then show ?thesis using ih True
      by (simp add: p dict_get_normalize_step_same split: option.splits)
  next
    case False
    then have eq: "dict_get (normalize_step raw p r) sk = dict_get r sk"
      by (simp add: p dict_get_normalize_step_other)
    show ?thesis using ih [unfolded eq] False
      by (simp add: p)
  qed
qed

lemma map_of_filter_Some:
  "distinct (map fst xs) \<Longrightarrow> (k, v) \<in> set xs \<Longrightarrow> P (k, v) \<Longrightarrow>
   map_of (filter P xs) k = Some v"
  by (rule map_of_is_SomeI) (simp_all add: distinct_map_filter)

lemma map_of_filter_None:
  "\<not> P' k \<Longrightarrow> map_of (filter (\<lambda>(k, v). P' k) xs) k = None"
  by (induction xs) auto

lemma dict_get_extra:
  "dict_get (normalize raw mapping) ''_extra'' =
     (if filter (\<lambda>(k, v). k \<notin> set (dict_values mapping)) raw = [] then None
      else Some (Extra (filter (\<lambda>(k, v). k \<notin> set (dict_values mapping)) raw)))"
  using extra_not_field
  by (simp add: normalize_def Let_def dict_get_set dict_get_None dict_keys_fold_step
      dict_keys_empty_record)

lemma dict_get_normalize_field:
  "sk \<in> set FIELDS \<Longrightarrow>
   dict_get (normalize raw mapping) sk =
     dict_get (fold (normalize_step raw) mapping empty_record) sk"
  using extra_not_field
  by (auto simp: normalize_def Let_def dict_get_set)

lemma dict_get_fold_step_untouched:
  "\<forall>src. (f, src) \<in> set mapping \<longrightarrow> src \<notin> set (dict_keys raw) \<Longrightarrow>
   dict_get (fold (normalize_step raw) mapping r) f = dict_get r f"
proof (induction mapping arbitrary: r)
  case Nil
  show ?case by simp
next
  case (Cons p m)
  obtain a b where p: "p = (a, b)" by (cases p)
  have rest: "\<forall>src. (f, src) \<in> set m \<longrightarrow> src \<notin> set (dict_keys raw)"
    using Cons.prems by simp
  have step: "dict_get (normalize_step raw p r) f = dict_get r f"
  proof (cases "f = a")
    case True
    then have "b \<notin> set (dict_keys raw)" using Cons.prems p by simp
    then have "dict_get raw b = None" by (simp add: dict_get_None)
    then show ?thesis using True by (simp add: p dict_get_normalize_step_same)
  next
    case False
    then show ?thesis by (simp add: p dict_get_normalize_step_other)
  qed
  show ?case using Cons.IH [OF rest, of "normalize_step raw p r"] step by simp
qed

lemma consumed_named: "consumed mapping k \<Longrightarrow> k \<in> set (dict_values mapping)"
  by (force simp: consumed_def dict_values_def)

lemma extra_key_iff:
  "''_extra'' \<in> set (dict_keys (normalize raw mapping))
     \<longleftrightarrow> (\<exists>k \<in> set (dict_keys raw). k \<notin> set (dict_values mapping))"
  using extra_not_field
  by (auto simp: normalize_def Let_def dict_keys_dict_set dict_keys_fold_step
      dict_keys_empty_record filter_extra_empty)

text \<open>
  Claim C1, amended in the count of the fields and in the reach of the equivalence.
  For every raw record and every mapping, the keys of \<open>normalize raw mapping\<close> are the
  schema fields \<open>FIELDS\<close>, in their order, alone or followed by \<open>_extra\<close>. The schema
  list holds 32 distinct field names (not 31) and \<open>_extra\<close> is not one of them. Every
  field that no mapping pair with a source present in the raw record targets holds the
  empty string in the result. \<open>_extra\<close> is present whenever some raw key is not named
  as a source by the mapping. When every raw key that the mapping names is consumed,
  \<open>_extra\<close> is present if and only if some raw key is not consumed.
\<close>

theorem normalize_keys:
  "(dict_keys (normalize raw mapping) = FIELDS
      \<or> dict_keys (normalize raw mapping) = FIELDS @ [''_extra''])
   \<and> length FIELDS = 32 \<and> distinct FIELDS \<and> card (set FIELDS) = 32
   \<and> ''_extra'' \<notin> set FIELDS
   \<and> (\<forall>f \<in> set FIELDS.
         (\<forall>src. (f, src) \<in> set mapping \<longrightarrow> src \<notin> set (dict_keys raw))
         \<longrightarrow> dict_get (normalize raw mapping) f = Some (Str ''''))
   \<and> ((\<exists>k \<in> set (dict_keys raw). k \<notin> set (dict_values mapping))
         \<longrightarrow> ''_extra'' \<in> set (dict_keys (normalize raw mapping)))
   \<and> ((\<forall>k \<in> set (dict_keys raw). k \<in> set (dict_values mapping) \<longrightarrow> consumed mapping k)
         \<longrightarrow> (''_extra'' \<in> set (dict_keys (normalize raw mapping))
                \<longleftrightarrow> (\<exists>k \<in> set (dict_keys raw). \<not> consumed mapping k)))"
proof -
  have keys: "dict_keys (normalize raw mapping) = FIELDS
      \<or> dict_keys (normalize raw mapping) = FIELDS @ [''_extra'']"
    using extra_not_field
    by (simp add: normalize_def Let_def dict_keys_dict_set dict_keys_fold_step
        dict_keys_empty_record)
  have card: "card (set FIELDS) = 32"
    using distinct_card [OF distinct_FIELDS] by (simp add: length_FIELDS)
  have init: "dict_get (normalize raw mapping) f = Some (Str '''')"
    if f: "f \<in> set FIELDS"
      and un: "\<forall>src. (f, src) \<in> set mapping \<longrightarrow> src \<notin> set (dict_keys raw)" for f
  proof -
    have "dict_get (normalize raw mapping) f
        = dict_get (fold (normalize_step raw) mapping empty_record) f"
      using f by (rule dict_get_normalize_field)
    also have "\<dots> = dict_get empty_record f"
      using un by (rule dict_get_fold_step_untouched)
    also have "\<dots> = Some (Str '''')"
      using f by (simp add: dict_get_def empty_record_def map_of_const_field)
    finally show ?thesis .
  qed
  have unnamed: "(\<exists>k \<in> set (dict_keys raw). k \<notin> set (dict_values mapping))
      \<longrightarrow> ''_extra'' \<in> set (dict_keys (normalize raw mapping))"
    by (simp add: extra_key_iff)
  have iff: "''_extra'' \<in> set (dict_keys (normalize raw mapping))
      \<longleftrightarrow> (\<exists>k \<in> set (dict_keys raw). \<not> consumed mapping k)"
    if h: "\<forall>k \<in> set (dict_keys raw). k \<in> set (dict_values mapping) \<longrightarrow> consumed mapping k"
    using h consumed_named [of mapping] unfolding extra_key_iff by blast
  show ?thesis
    using keys card init unnamed iff length_FIELDS distinct_FIELDS extra_not_field
    by blast
qed

theorem normalize_keys_witness:
  "dict_keys (normalize [(''salary'', ''100''), (''note'', ''n'')] [(''price'', ''salary'')])
     = FIELDS @ [''_extra'']
   \<and> dict_get (normalize [(''salary'', ''100''), (''note'', ''n'')] [(''price'', ''salary'')])
       ''name'' = Some (Str '''')"
proof -
  let ?raw = "[(''salary'', ''100''), (''note'', ''n'')]"
  let ?mapping = "[(''price'', ''salary'')]"
  have f: "''name'' \<in> set FIELDS" and p: "''price'' \<in> set FIELDS"
    by (simp_all add: FIELDS_def)
  have un: "\<forall>src. (''name'', src) \<in> set ?mapping \<longrightarrow> src \<notin> set (dict_keys ?raw)"
    by simp
  have c: "consumed ?mapping ''salary''"
    using p by (auto simp: consumed_def)
  have nc: "\<not> consumed ?mapping ''note''"
    by (simp add: consumed_def)
  have h: "\<forall>k \<in> set (dict_keys ?raw). k \<in> set (dict_values ?mapping) \<longrightarrow> consumed ?mapping k"
    using c by (simp add: dict_keys_def dict_values_def)
  have ex: "\<exists>k \<in> set (dict_keys ?raw). \<not> consumed ?mapping k"
    using nc by (simp add: dict_keys_def)
  have extra: "''_extra'' \<in> set (dict_keys (normalize ?raw ?mapping))"
    using normalize_keys [of ?raw ?mapping] h ex by blast
  have "dict_keys (normalize ?raw ?mapping) = FIELDS @ [''_extra'']"
    using normalize_keys [of ?raw ?mapping] extra extra_not_field by auto
  moreover have "dict_get (normalize ?raw ?mapping) ''name'' = Some (Str '''')"
    using normalize_keys [of ?raw ?mapping] f un by blast
  ultimately show ?thesis by simp
qed

text \<open>
  Claim C1 as stated counts 31 schema fields. The record that \<open>normalize\<close> builds from
  an empty raw record and an empty mapping has 32 keys. The equivalence of the claim
  fails as well where the mapping names a raw key as the source of a target outside
  the schema: with the raw record \<open>{a: x}\<close> and the mapping \<open>{bogus: a}\<close> the key \<open>a\<close>
  is not consumed, and the result has no \<open>_extra\<close>.
\<close>

theorem normalize_keys_counterexample:
  "card (set (dict_keys (normalize [] []))) \<noteq> 31
   \<and> \<not> consumed [(''bogus'', ''a'')] ''a''
   \<and> ''_extra'' \<notin> set (dict_keys (normalize [(''a'', ''x'')] [(''bogus'', ''a'')]))"
  by code_simp

text \<open>
  What \<open>normalize\<close> keeps. Let \<open>raw\<close> and \<open>mapping\<close> be dictionaries (their keys are
  distinct) and \<open>(k, v)\<close> a pair of \<open>raw\<close>. If \<open>k\<close> is not a source key of the mapping,
  \<open>_extra\<close> is present and holds \<open>v\<close> under \<open>k\<close>. For every mapping pair \<open>(sk, k)\<close> whose
  target \<open>sk\<close> is a schema field, the record holds \<open>v\<close> under \<open>sk\<close>. If \<open>k\<close> is a source
  key of the mapping, \<open>_extra\<close> does not hold it.
\<close>

lemma normalize_retains:
  assumes "distinct (dict_keys raw)" and "distinct (dict_keys mapping)"
    and "(k, v) \<in> set raw"
  shows "(k \<notin> set (dict_values mapping) \<longrightarrow>
            (\<exists>e. dict_get (normalize raw mapping) ''_extra'' = Some (Extra e)
                 \<and> dict_get e k = Some v))
       \<and> (\<forall>sk. (sk, k) \<in> set mapping \<and> sk \<in> set FIELDS \<longrightarrow>
            dict_get (normalize raw mapping) sk = Some (Str v))
       \<and> (k \<in> set (dict_values mapping) \<longrightarrow>
            (\<forall>e. dict_get (normalize raw mapping) ''_extra'' = Some (Extra e)
                 \<longrightarrow> dict_get e k = None))"
proof (intro conjI impI allI)
  assume nk: "k \<notin> set (dict_values mapping)"
  let ?extra = "filter (\<lambda>(k, v). k \<notin> set (dict_values mapping)) raw"
  have m: "map_of ?extra k = Some v"
    using assms(1,3) nk by (intro map_of_filter_Some) (simp_all add: dict_keys_def)
  then have ne: "?extra \<noteq> []" by auto
  have "dict_get (normalize raw mapping) ''_extra'' = Some (Extra ?extra)"
    using ne by (simp add: dict_get_extra)
  moreover have "dict_get ?extra k = Some v"
    using m by (simp add: dict_get_def)
  ultimately show "\<exists>e. dict_get (normalize raw mapping) ''_extra'' = Some (Extra e)
                 \<and> dict_get e k = Some v"
    by blast
next
  fix sk assume h: "(sk, k) \<in> set mapping \<and> sk \<in> set FIELDS"
  have mo: "map_of mapping sk = Some k"
    using assms(2) h by (intro map_of_is_SomeI) (simp_all add: dict_keys_def)
  have rk: "dict_get raw k = Some v"
    unfolding dict_get_def using assms(1,3)
    by (intro map_of_is_SomeI) (simp_all add: dict_keys_def)
  show "dict_get (normalize raw mapping) sk = Some (Str v)"
    using h mo rk
    by (simp add: dict_get_normalize_field dict_get_fold_step [OF assms(2)]
        dict_keys_empty_record)
next
  fix e
  assume "k \<in> set (dict_values mapping)"
    and "dict_get (normalize raw mapping) ''_extra'' = Some (Extra e)"
  then have "dict_get (filter (\<lambda>(k, v). k \<notin> set (dict_values mapping)) raw) k = None
      \<and> e = filter (\<lambda>(k, v). k \<notin> set (dict_values mapping)) raw"
    unfolding dict_get_extra
    by (simp add: dict_get_def map_of_filter_None split: if_splits)
  then show "dict_get e k = None" by simp
qed

lemma normalize_retains_example:
  "dict_get (normalize [(''t'', ''x''), (''u'', ''y'')] [(''name'', ''t'')]) ''name''
     = Some (Str ''x'')
   \<and> (\<exists>e. dict_get (normalize [(''t'', ''x''), (''u'', ''y'')] [(''name'', ''t'')]) ''_extra''
          = Some (Extra e) \<and> dict_get e ''u'' = Some ''y'' \<and> dict_get e ''t'' = None)"
proof -
  have f: "''name'' \<in> set FIELDS" by (simp add: FIELDS_def)
  have d1: "distinct (dict_keys [(''t'', ''x''), (''u'', ''y'')])"
    and d2: "distinct (dict_keys [(''name'', ''t'')])"
    by (simp_all add: dict_keys_def)
  show ?thesis
    using normalize_retains [OF d1 d2, of "''t''" "''x''"] normalize_retains [OF d1 d2, of "''u''" "''y''"] f
    by (simp add: dict_values_def) blast
qed


text \<open>
  Claim C2 says that no raw pair is lost: its value is copied into a schema field or
  the pair stands under \<open>_extra\<close>. The code loses one at the raw record \<open>{a: x}\<close> with
  the mapping \<open>{bogus: a}\<close>. The target \<open>bogus\<close> is not a schema field, so the loop
  skips the pair; \<open>a\<close> is a value of the mapping all the same, so the filter keeps it
  out of \<open>_extra\<close>. The result is the empty record: \<open>x\<close> is in no field and there is no
  \<open>_extra\<close>.
\<close>

theorem normalize_drops_skipped_source:
  "normalize [(''a'', ''x'')] [(''bogus'', ''a'')] = empty_record
   \<and> Str ''x'' \<notin> set (dict_values (normalize [(''a'', ''x'')] [(''bogus'', ''a'')]))
   \<and> dict_get (normalize [(''a'', ''x'')] [(''bogus'', ''a'')]) ''_extra'' = None"
  by code_simp

section \<open>Identifier extraction\<close>

lemma unique_loop_acc:
  "unique_loop ids (set u) u = u @ filter (\<lambda>x. x \<notin> set u) (unique_loop ids {} [])"
proof (induction ids arbitrary: u)
  case Nil
  show ?case by simp
next
  case (Cons i ids)
  have one: "unique_loop ids {i} [i] = [i] @ filter (\<lambda>x. x \<notin> set [i]) (unique_loop ids {} [])"
    using Cons.IH [of "[i]"] by simp
  show ?case
  proof (cases "i \<in> set u")
    case True
    have "filter (\<lambda>x. x \<notin> set u) (filter (\<lambda>x. x \<noteq> i) (unique_loop ids {} []))
        = filter (\<lambda>x. x \<notin> set u) (unique_loop ids {} [])"
      using True by (auto simp: filter_filter intro: filter_cong)
    then show ?thesis using True Cons.IH [of u] one by simp
  next
    case False
    have "unique_loop ids (set (u @ [i])) (u @ [i])
        = (u @ [i]) @ filter (\<lambda>x. x \<notin> set (u @ [i])) (unique_loop ids {} [])"
      by (rule Cons.IH)
    moreover have "filter (\<lambda>x. x \<notin> set (u @ [i])) (unique_loop ids {} [])
        = filter (\<lambda>x. x \<notin> set u) (filter (\<lambda>x. x \<noteq> i) (unique_loop ids {} []))"
      by (auto simp: filter_filter intro: filter_cong)
    ultimately show ?thesis using False one by simp
  qed
qed

lemma unique_loop_Cons:
  "unique_loop (i # ids) {} [] = i # filter (\<lambda>x. x \<noteq> i) (unique_loop ids {} [])"
  using unique_loop_acc [of ids "[i]"] by simp

lemma unique_loop_set: "set (unique_loop ids {} []) = set ids"
proof (induction ids)
  case Nil
  show ?case by simp
next
  case (Cons i ids)
  then show ?case unfolding unique_loop_Cons by auto
qed

lemma unique_loop_distinct: "distinct (unique_loop ids {} [])"
proof (induction ids)
  case Nil
  show ?case by simp
next
  case (Cons i ids)
  then show ?case unfolding unique_loop_Cons by simp
qed

lemma unique_loop_of_distinct: "distinct xs \<Longrightarrow> unique_loop xs {} [] = xs"
proof (induction xs)
  case Nil
  show ?case by simp
next
  case (Cons x xs)
  then have "filter (\<lambda>y. y \<noteq> x) xs = xs" by (auto intro: filter_True)
  with Cons show ?case by (simp add: unique_loop_Cons del: unique_loop.simps)
qed

lemma remdups_snoc:
  "remdups (xs @ [i]) = remdups (filter (\<lambda>x. x \<noteq> i) xs) @ [i]"
  by (induction xs) auto

lemma unique_loop_rev_remdups: "unique_loop ids {} [] = rev (remdups (rev ids))"
proof (induction ids)
  case Nil
  show ?case by simp
next
  case (Cons i ids)
  have "remdups (rev ids @ [i]) = remdups (filter (\<lambda>x. x \<noteq> i) (rev ids)) @ [i]"
    by (rule remdups_snoc)
  then have "rev (remdups (rev (i # ids))) = i # filter (\<lambda>x. x \<noteq> i) (rev (remdups (rev ids)))"
    by (simp add: remdups_filter rev_filter)
  with Cons show ?case by (simp add: unique_loop_Cons del: unique_loop.simps)
qed

lemma takeWhile_filter_commute:
  "x \<noteq> a \<Longrightarrow> takeWhile (\<lambda>y. y \<noteq> x) (filter (\<lambda>y. y \<noteq> a) ys)
     = filter (\<lambda>y. y \<noteq> a) (takeWhile (\<lambda>y. y \<noteq> x) ys)"
proof (induction ys)
  case Nil
  show ?case by simp
next
  case (Cons b ys)
  then show ?case by (cases "b = x"; cases "b = a"; simp)
qed

lemma unique_loop_before:
  "x \<in> set ids \<Longrightarrow>
   set (takeWhile (\<lambda>y. y \<noteq> x) (unique_loop ids {} [])) = set (takeWhile (\<lambda>y. y \<noteq> x) ids)"
proof (induction ids)
  case Nil
  then show ?case by simp
next
  case (Cons a ids)
  show ?case
  proof (cases "x = a")
    case True
    then show ?thesis by (simp add: unique_loop_Cons del: unique_loop.simps)
  next
    case False
    with Cons.prems have "x \<in> set ids" by simp
    then have ih: "set (takeWhile (\<lambda>y. y \<noteq> x) (unique_loop ids {} []))
        = set (takeWhile (\<lambda>y. y \<noteq> x) ids)" by (rule Cons.IH)
    show ?thesis using False ih
      by (auto simp: unique_loop_Cons takeWhile_filter_commute simp del: unique_loop.simps)
  qed
qed

text \<open>
  Claim C8. When the pattern's matches in the markup are \<open>ids\<close>, \<open>extract_ids\<close>
  returns a list \<open>out\<close> without repetition that holds exactly the tokens of \<open>ids\<close>;
  each token \<open>x\<close> stands in \<open>out\<close> behind exactly the tokens that occur in \<open>ids\<close>
  before the first occurrence of \<open>x\<close> (so \<open>out\<close> is \<open>ids\<close> with every occurrence but
  the first removed); and on any markup whose matches are \<open>out\<close> itself, each token
  once in first-occurrence order, \<open>extract_ids\<close> returns the same list.
\<close>

theorem extract_ids_first_occurrence:
  assumes "re_findall pattern html = Inr ids"
  shows "\<exists>out. extract_ids re_findall html pattern = Inr out
           \<and> distinct out \<and> set out = set ids
           \<and> (\<forall>x \<in> set ids. set (takeWhile (\<lambda>y. y \<noteq> x) out)
                               = set (takeWhile (\<lambda>y. y \<noteq> x) ids))
           \<and> out = rev (remdups (rev ids))
           \<and> (\<forall>html'. re_findall pattern html' = Inr out
                  \<longrightarrow> extract_ids re_findall html' pattern = Inr out)"
proof -
  let ?out = "unique_loop ids {} []"
  have "extract_ids re_findall html pattern = Inr ?out"
    using assms by (simp add: extract_ids_def)
  moreover have "\<forall>html'. re_findall pattern html' = Inr ?out
                  \<longrightarrow> extract_ids re_findall html' pattern = Inr ?out"
    by (simp add: extract_ids_def unique_loop_of_distinct unique_loop_distinct)
  ultimately show ?thesis
    using unique_loop_distinct [of ids] unique_loop_set [of ids]
      unique_loop_before [of _ ids] unique_loop_rev_remdups [of ids]
    by blast
qed

theorem extract_ids_first_occurrence_witness:
  "extract_ids example_findall ''item-7 item-3 item-7 item-3 item-9'' item_pattern
     = Inr [''7'', ''3'', ''9'']
   \<and> extract_ids example_findall ''item-7 item-3 item-9'' item_pattern
     = Inr [''7'', ''3'', ''9'']"
proof -
  have f: "example_findall item_pattern ''item-7 item-3 item-7 item-3 item-9''
      = Inr [''7'', ''3'', ''7'', ''3'', ''9'']"
    by code_simp
  have g: "example_findall item_pattern ''item-7 item-3 item-9'' = Inr [''7'', ''3'', ''9'']"
    by code_simp
  show ?thesis
    using extract_ids_first_occurrence [of example_findall item_pattern "''item-7 item-3 item-7 item-3 item-9''"
        "[''7'', ''3'', ''7'', ''3'', ''9'']", OF f] g
    by auto
qed


section \<open>Pagination\<close>

lemma unique_loop_append:
  "unique_loop (xs @ ys) {} []
     = unique_loop xs {} [] @ filter (\<lambda>y. y \<notin> set xs) (unique_loop ys {} [])"
proof (induction xs)
  case Nil
  show ?case by simp
next
  case (Cons x xs)
  have "filter (\<lambda>y. y \<noteq> x) (filter (\<lambda>y. y \<notin> set xs) (unique_loop ys {} []))
      = filter (\<lambda>y. y \<notin> set (x # xs)) (unique_loop ys {} [])"
    by (auto simp: filter_filter intro: filter_cong)
  then show ?case
    using Cons.IH unique_loop_Cons [of x "xs @ ys"] unique_loop_Cons [of x xs]
    by simp
qed

lemma page_body_error:
  assumes "F (length (fetched st)) (list_page_url config lu page) = Inl e"
  shows "page_body F R config lu pat page st
           = (st\<lparr>fetched := fetched st @ [(page, list_page_url config lu page)]\<rparr>, False)"
  using assms by (simp add: page_body_def Let_def)

lemma page_body_ok:
  assumes "F (length (fetched st)) (list_page_url config lu page) = Inr html"
    and "R pat html = Inr ids"
  shows "page_body F R config lu pat page st
           = (st\<lparr>fetched := fetched st @ [(page, list_page_url config lu page)],
                 seen := seen st \<union> set (filter (\<lambda>i. i \<notin> seen st) (unique_loop ids {} [])),
                 all_ids := all_ids st @ filter (\<lambda>i. i \<notin> seen st) (unique_loop ids {} [])\<rparr>,
              filter (\<lambda>i. i \<notin> seen st) (unique_loop ids {} []) = []
                \<and> page > get_start_page config)"
  using assms by (simp add: page_body_def Let_def extract_ids_def)

lemma page_body_re_error:
  assumes "F (length (fetched st)) (list_page_url config lu page) = Inr html"
    and "R pat html = Inl e"
  shows "page_body F R config lu pat page st
           = (st\<lparr>fetched := fetched st @ [(page, list_page_url config lu page)]\<rparr>, False)"
  using assms by (simp add: page_body_def Let_def extract_ids_def)

lemma log_matches_snoc:
  "log_matches F R pat (log @ [(page, url)])
     = log_matches F R pat log @ page_matches F R pat (length log) url"
  by (simp add: log_matches_def enumerate_append_eq)

lemma crawl_inv_initial: "crawl_inv F R pat initial_state"
  by (simp add: crawl_inv_def initial_state_def log_matches_def)

lemma page_body_inv:
  assumes "crawl_inv F R pat st"
  shows "crawl_inv F R pat (fst (page_body F R config lu pat page st))"
proof (cases "F (length (fetched st)) (list_page_url config lu page)")
  case (Inl e)
  then have "page_matches F R pat (length (fetched st)) (list_page_url config lu page) = []"
    by (simp add: page_matches_def)
  then show ?thesis
    using assms Inl by (simp add: page_body_error crawl_inv_def log_matches_snoc)
next
  case (Inr html)
  show ?thesis
  proof (cases "R pat html")
    case (Inl e)
    have "page_matches F R pat (length (fetched st)) (list_page_url config lu page) = []"
      using Inr Inl by (simp add: page_matches_def)
    then show ?thesis
      using assms Inr Inl
      by (simp add: page_body_re_error [where html = html] crawl_inv_def log_matches_snoc)
  next
    case (Inr ids)
    have m: "page_matches F R pat (length (fetched st)) (list_page_url config lu page) = ids"
      using \<open>F (length (fetched st)) (list_page_url config lu page) = Inr html\<close> Inr
      by (simp add: page_matches_def)
    have s: "seen st = set (log_matches F R pat (fetched st))"
      using assms by (simp add: crawl_inv_def unique_loop_set)
    have pb: "page_body F R config lu pat page st
           = (st\<lparr>fetched := fetched st @ [(page, list_page_url config lu page)],
                 seen := seen st \<union> set (filter (\<lambda>i. i \<notin> seen st) (unique_loop ids {} [])),
                 all_ids := all_ids st @ filter (\<lambda>i. i \<notin> seen st) (unique_loop ids {} [])\<rparr>,
              filter (\<lambda>i. i \<notin> seen st) (unique_loop ids {} []) = []
                \<and> page > get_start_page config)"
      using \<open>F (length (fetched st)) (list_page_url config lu page) = Inr html\<close> Inr
      by (rule page_body_ok)
    show ?thesis
      using assms
      by (simp add: pb crawl_inv_def log_matches_snoc m unique_loop_append s Un_commute)
  qed
qed

lemma page_body_fetched:
  "fetched (fst (page_body F R config lu pat page st))
     = fetched st @ [(page, list_page_url config lu page)]"
  by (simp add: page_body_def Let_def split: sum.splits)

lemma pages_loop_append:
  "pages_loop body (xs @ ys) st =
     (case pages_loop body xs st of
        (st', True) \<Rightarrow> (st', True)
      | (st', False) \<Rightarrow> pages_loop body ys st')"
  by (induction xs arbitrary: st) (auto split: prod.splits bool.splits)

lemma pages_loop_inv:
  "crawl_inv F R pat st \<Longrightarrow>
   crawl_inv F R pat (fst (pages_loop (page_body F R config lu pat) ps st))"
proof (induction ps arbitrary: st)
  case Nil
  then show ?case by simp
next
  case (Cons p ps)
  have i: "crawl_inv F R pat (fst (page_body F R config lu pat p st))"
    using Cons.prems by (rule page_body_inv)
  show ?case
  proof (cases "page_body F R config lu pat p st")
    case (Pair st' b)
    with i have "crawl_inv F R pat st'" by simp
    then show ?thesis using Pair Cons.IH [of st'] by (cases b) simp_all
  qed
qed

lemma pages_loop_fetched_all:
  "pages_loop (page_body F R config lu pat) ps st = (st', False) \<Longrightarrow>
   fetched st' = fetched st @ map (\<lambda>p. (p, list_page_url config lu p)) ps"
proof (induction ps arbitrary: st)
  case Nil
  then show ?case by simp
next
  case (Cons p ps)
  obtain st1 b where pb: "page_body F R config lu pat p st = (st1, b)"
    by (cases "page_body F R config lu pat p st")
  with Cons.prems have b: "b = False" and r: "pages_loop (page_body F R config lu pat) ps st1 = (st', False)"
    by (cases b; simp)+
  have "fetched st1 = fetched st @ [(p, list_page_url config lu p)]"
    using page_body_fetched [of F R config lu pat p st] pb by simp
  then show ?case using Cons.IH [OF r] by simp
qed

lemma upto_split_less:
  assumes "[i..j] = pre @ k # post" and "pre \<noteq> []"
  shows "i < k"
proof -
  obtain p pre' where pre: "pre = p # pre'" using assms(2) by (cases pre) auto
  have ne: "[i..j] \<noteq> []" using assms(1) by auto
  then have "i \<le> j" by (cases "i \<le> j") simp_all
  then have "[i..j] = i # [i + 1..j]" by (rule upto_rec1)
  with assms(1) pre have "p = i" by simp
  have "sorted (pre @ k # post)" "distinct (pre @ k # post)"
    using assms(1) sorted_upto [of i j] distinct_upto [of i j] by simp_all
  then have "p \<le> k" "p \<noteq> k" using pre by (auto simp: sorted_append)
  with \<open>p = i\<close> show ?thesis by simp
qed

lemma page_body_all_ids_grow:
  "\<exists>more. all_ids (fst (page_body F R config lu pat page st)) = all_ids st @ more"
  by (simp add: page_body_def Let_def split: sum.splits)

lemma pages_loop_all_ids_grow:
  "\<exists>more. all_ids (fst (pages_loop (page_body F R config lu pat) ps st)) = all_ids st @ more"
proof (induction ps arbitrary: st)
  case Nil
  show ?case by simp
next
  case (Cons p ps)
  obtain st1 b where pb: "page_body F R config lu pat p st = (st1, b)"
    by (cases "page_body F R config lu pat p st")
  obtain m1 where m1: "all_ids st1 = all_ids st @ m1"
    using page_body_all_ids_grow [of F R config lu pat p st] pb by auto
  obtain m2 where m2: "all_ids (fst (pages_loop (page_body F R config lu pat) ps st1))
      = all_ids st1 @ m2"
    using Cons.IH [of st1] by auto
  show ?case using pb m1 m2 by (cases b) simp_all
qed

lemma crawl_pages_eq:
  assumes "list_url config = Some lu" and "id_pattern config = Some pat"
  shows "crawl_pages F R config mp =
     Inr (fst (pages_loop (page_body F R config lu pat)
                 [get_start_page config..get_end_page config mp] initial_state))"
  using assms by (simp add: crawl_pages_def)

text \<open>
  Claim C3. Let the configuration name a list URL and an identifier pattern. The run
  returns, and its identifiers are without repetition and are the matches along the
  requests made, each at its first occurrence. Let page \<open>k\<close> be a page of the range
  other than the first (the range is \<open>pre @ k # post\<close> with \<open>pre\<close> not empty) that the
  loop reaches without a stop (\<open>pages_loop\<close> on \<open>pre\<close> ends in state \<open>st\<close>, flag
  \<open>False\<close>), and let its fetch succeed with matches that are all in the seen set of
  \<open>st\<close>. Then the run ends with the identifiers of \<open>st\<close>, and the requests of the run
  are those for the pages of \<open>pre\<close> and for \<open>k\<close>: no page of \<open>post\<close> is fetched. For
  the example site (pages 1 to 2, pattern \<open>item-(\d+)\<close>, page 1 holding
  \<open>item-1, item-2, item-1\<close> and page 2 holding \<open>item-2\<close>) the result is \<open>["1", "2"]\<close>.
\<close>

theorem crawl_list_pages_stops:
  assumes lu: "list_url config = Some lu" and pat: "id_pattern config = Some pat"
  shows "\<exists>final. crawl_pages F R config mp = Inr final
           \<and> crawl_list_pages F R config mp = Inr (all_ids final)
           \<and> distinct (all_ids final)
           \<and> all_ids final = unique_loop (log_matches F R pat (fetched final)) {} []
           \<and> (\<forall>pre k post st html ids.
                 [get_start_page config..get_end_page config mp] = pre @ k # post
               \<and> pre \<noteq> []
               \<and> pages_loop (page_body F R config lu pat) pre initial_state = (st, False)
               \<and> F (length pre) (list_page_url config lu k) = Inr html
               \<and> R pat html = Inr ids \<and> set ids \<subseteq> seen st
               \<longrightarrow> all_ids final = all_ids st
                 \<and> fetched final = map (\<lambda>p. (p, list_page_url config lu p)) (pre @ [k]))
       \<and> crawl_list_pages example_fetch example_findall example_config None
           = Inr [''1'', ''2'']"
proof -
  let ?B = "page_body F R config lu pat"
  let ?pages = "[get_start_page config..get_end_page config mp]"
  let ?final = "fst (pages_loop ?B ?pages initial_state)"
  have run: "crawl_pages F R config mp = Inr ?final"
    using lu pat by (rule crawl_pages_eq)
  have ids: "crawl_list_pages F R config mp = Inr (all_ids ?final)"
    by (simp add: crawl_list_pages_def run)
  have inv: "crawl_inv F R pat ?final"
    using crawl_inv_initial by (rule pages_loop_inv)
  then have order: "all_ids ?final = unique_loop (log_matches F R pat (fetched ?final)) {} []"
    by (simp add: crawl_inv_def)
  then have dist: "distinct (all_ids ?final)"
    using unique_loop_distinct [of "log_matches F R pat (fetched ?final)"] by simp
  have stop: "all_ids ?final = all_ids st
        \<and> fetched ?final = map (\<lambda>p. (p, list_page_url config lu p)) (pre @ [k])"
    if split: "?pages = pre @ k # post" and ne: "pre \<noteq> []"
      and before: "pages_loop ?B pre initial_state = (st, False)"
      and fetch: "F (length pre) (list_page_url config lu k) = Inr html"
      and re: "R pat html = Inr ids" and old: "set ids \<subseteq> seen st"
    for pre k post st html ids
  proof -
    have log: "fetched st = map (\<lambda>p. (p, list_page_url config lu p)) pre"
      using pages_loop_fetched_all [OF before] by (simp add: initial_state_def)
    then have len: "length (fetched st) = length pre" by simp
    have gt: "get_start_page config < k"
      using split ne by (rule upto_split_less)
    have none: "filter (\<lambda>i. i \<notin> seen st) (unique_loop ids {} []) = []"
      using old by (auto simp: filter_empty_conv unique_loop_set)
    have body: "?B k st =
        (st\<lparr>fetched := fetched st @ [(k, list_page_url config lu k)]\<rparr>, True)"
      using page_body_ok [of F st config lu k html R pat ids] fetch re none gt len
      by simp
    have "pages_loop ?B ?pages initial_state =
        (st\<lparr>fetched := fetched st @ [(k, list_page_url config lu k)]\<rparr>, True)"
      unfolding split using before body by (simp add: pages_loop_append)
    then show ?thesis using log by simp
  qed
  have example: "crawl_list_pages example_fetch example_findall example_config None
      = Inr [''1'', ''2'']"
    by code_simp
  show ?thesis
    using run ids dist order stop example by blast
qed

theorem crawl_list_pages_stops_witness:
  "crawl_list_pages example_fetch example_findall (example_config\<lparr>end_page := Some 5\<rparr>) None
     = Inr [''1'', ''2'']
   \<and> map_sum id fetched
        (crawl_pages example_fetch example_findall (example_config\<lparr>end_page := Some 5\<rparr>) None)
     = Inr [(1, ''http://site.example/list?p=1''), (2, ''http://site.example/list?p=2'')]"
proof -
  let ?cfg = "example_config\<lparr>end_page := Some 5\<rparr>"
  let ?lu = "''/list?p={page}''"
  let ?st = "\<lparr>all_ids = [''1'', ''2''], seen = {''1'', ''2''},
              fetched = [(1, ''http://site.example/list?p=1'')]\<rparr>"
  have lu: "list_url ?cfg = Some ?lu" and pat: "id_pattern ?cfg = Some item_pattern"
    by (simp_all add: example_config_def)
  have split: "[get_start_page ?cfg..get_end_page ?cfg None] = [1] @ 2 # [3, 4, 5]"
    by code_simp
  have before: "pages_loop (page_body example_fetch example_findall ?cfg ?lu item_pattern)
      [1] initial_state = (?st, False)"
    by code_simp
  have fetch: "example_fetch (length [1 :: int]) (list_page_url ?cfg ?lu 2) = Inr ''item-2''"
    by code_simp
  have re: "example_findall item_pattern ''item-2'' = Inr [''2'']"
    by code_simp
  have old: "set [''2''] \<subseteq> seen ?st" by simp
  have urls: "map (\<lambda>p. (p, list_page_url ?cfg ?lu p)) ([1] @ [2])
      = [(1, ''http://site.example/list?p=1''), (2, ''http://site.example/list?p=2'')]"
    by code_simp
  from crawl_list_pages_stops [OF lu pat, of example_fetch example_findall None]
  obtain final where run: "crawl_pages example_fetch example_findall ?cfg None = Inr final"
    and ids: "crawl_list_pages example_fetch example_findall ?cfg None = Inr (all_ids final)"
    and stop: "\<And>pre k post st html ids.
        [get_start_page ?cfg..get_end_page ?cfg None] = pre @ k # post \<Longrightarrow> pre \<noteq> [] \<Longrightarrow>
        pages_loop (page_body example_fetch example_findall ?cfg ?lu item_pattern) pre
          initial_state = (st, False) \<Longrightarrow>
        example_fetch (length pre) (list_page_url ?cfg ?lu k) = Inr html \<Longrightarrow>
        example_findall item_pattern html = Inr ids \<Longrightarrow> set ids \<subseteq> seen st \<Longrightarrow>
        all_ids final = all_ids st
          \<and> fetched final = map (\<lambda>p. (p, list_page_url ?cfg ?lu p)) (pre @ [k])"
    by blast
  have "all_ids final = all_ids ?st
      \<and> fetched final = map (\<lambda>p. (p, list_page_url ?cfg ?lu p)) ([1] @ [2])"
    using split _ before fetch re old by (rule stop) simp
  then show ?thesis using run ids urls by simp
qed


text \<open>
  Claim C9. Let the configuration name a list URL and an identifier pattern, let page
  \<open>k\<close> of the range be reached without a stop, in state \<open>st\<close>, and let its fetch raise.
  Then the turn for page \<open>k\<close> ends without \<open>break\<close> and changes nothing but the request
  log; the page delivers no matches; the run is the loop over the remaining pages
  from that state; and the identifiers of the run begin with those of \<open>st\<close>.
\<close>

theorem crawl_list_pages_fetch_error:
  assumes lu: "list_url config = Some lu" and pat: "id_pattern config = Some pat"
    and split: "[get_start_page config..get_end_page config mp] = pre @ k # post"
    and before: "pages_loop (page_body F R config lu pat) pre initial_state = (st, False)"
    and err: "F (length pre) (list_page_url config lu k) = Inl e"
  shows "page_body F R config lu pat k st
           = (st\<lparr>fetched := fetched st @ [(k, list_page_url config lu k)]\<rparr>, False)
       \<and> crawl_pages F R config mp
           = Inr (fst (pages_loop (page_body F R config lu pat) post
                    (st\<lparr>fetched := fetched st @ [(k, list_page_url config lu k)]\<rparr>)))
       \<and> page_matches F R pat (length pre) (list_page_url config lu k) = []
       \<and> (\<exists>final more. crawl_list_pages F R config mp = Inr final
             \<and> final = all_ids st @ more)"
proof -
  let ?B = "page_body F R config lu pat"
  let ?st1 = "st\<lparr>fetched := fetched st @ [(k, list_page_url config lu k)]\<rparr>"
  have log: "fetched st = map (\<lambda>p. (p, list_page_url config lu p)) pre"
    using pages_loop_fetched_all [OF before] by (simp add: initial_state_def)
  then have len: "length (fetched st) = length pre" by simp
  have body: "?B k st = (?st1, False)"
    using err len by (simp add: page_body_error)
  have loop: "pages_loop ?B (pre @ k # post) initial_state = pages_loop ?B post ?st1"
    using before body by (simp add: pages_loop_append)
  have run: "crawl_pages F R config mp = Inr (fst (pages_loop ?B post ?st1))"
    using crawl_pages_eq [OF lu pat, of F R mp] split loop by simp
  have none: "page_matches F R pat (length pre) (list_page_url config lu k) = []"
    using err by (simp add: page_matches_def)
  have grow: "\<exists>more. all_ids (fst (pages_loop ?B post ?st1)) = all_ids ?st1 @ more"
    by (rule pages_loop_all_ids_grow)
  then obtain more where "all_ids (fst (pages_loop ?B post ?st1)) = all_ids st @ more"
    by auto
  then have "crawl_list_pages F R config mp = Inr (all_ids st @ more)"
    by (simp add: crawl_list_pages_def run)
  then show ?thesis using body run none by blast
qed

theorem crawl_list_pages_fetch_error_witness:
  "crawl_list_pages flaky_fetch example_findall (example_config\<lparr>end_page := Some 3\<rparr>) None
     = Inr [''1'', ''3'']
   \<and> map_sum id fetched
        (crawl_pages flaky_fetch example_findall (example_config\<lparr>end_page := Some 3\<rparr>) None)
     = Inr [(1, ''http://site.example/list?p=1''), (2, ''http://site.example/list?p=2''),
            (3, ''http://site.example/list?p=3'')]"
proof -
  let ?cfg = "example_config\<lparr>end_page := Some 3\<rparr>"
  let ?lu = "''/list?p={page}''"
  let ?st = "\<lparr>all_ids = [''1''], seen = {''1''},
              fetched = [(1, ''http://site.example/list?p=1'')]\<rparr>"
  have lu: "list_url ?cfg = Some ?lu" and pat: "id_pattern ?cfg = Some item_pattern"
    by (simp_all add: example_config_def)
  have split: "[get_start_page ?cfg..get_end_page ?cfg None] = [1] @ 2 # [3]"
    by code_simp
  have before: "pages_loop (page_body flaky_fetch example_findall ?cfg ?lu item_pattern)
      [1] initial_state = (?st, False)"
    by code_simp
  have err: "flaky_fetch (length [1 :: int]) (list_page_url ?cfg ?lu 2) = Inl FetchError"
    by code_simp
  have rest: "fst (pages_loop (page_body flaky_fetch example_findall ?cfg ?lu item_pattern) [3]
      (?st\<lparr>fetched := fetched ?st @ [(2, list_page_url ?cfg ?lu 2)]\<rparr>))
    = \<lparr>all_ids = [''1'', ''3''], seen = {''1'', ''3''},
       fetched = [(1, ''http://site.example/list?p=1''), (2, ''http://site.example/list?p=2''),
                  (3, ''http://site.example/list?p=3'')]\<rparr>"
    by code_simp
  have "crawl_pages flaky_fetch example_findall ?cfg None
      = Inr (fst (pages_loop (page_body flaky_fetch example_findall ?cfg ?lu item_pattern) [3]
               (?st\<lparr>fetched := fetched ?st @ [(2, list_page_url ?cfg ?lu 2)]\<rparr>)))"
    using crawl_list_pages_fetch_error [OF lu pat split before err] by blast
  then show ?thesis unfolding rest by (simp add: crawl_list_pages_def)
qed


section \<open>Scrolling to the bottom\<close>

declare scroll_loop.simps [simp del]

lemma scroll_loop_cap: "\<not> a < max_attempts \<Longrightarrow> scroll_loop page prev a = (a, Capped)"
  by (subst scroll_loop.simps) simp

lemma scroll_loop_error:
  "a < max_attempts \<Longrightarrow> page a = Inl e \<Longrightarrow> scroll_loop page prev a = (a, Failed e)"
  by (subst scroll_loop.simps) simp

lemma scroll_loop_equal:
  "a < max_attempts \<Longrightarrow> page a = Inr prev \<Longrightarrow> scroll_loop page prev a = (a, Stable)"
  by (subst scroll_loop.simps) simp

lemma scroll_loop_step:
  "a < max_attempts \<Longrightarrow> page a = Inr cur \<Longrightarrow> cur \<noteq> prev \<Longrightarrow>
   scroll_loop page prev a = scroll_loop page cur (a + 1)"
  by (subst scroll_loop.simps) simp

lemma scroll_loop_bound:
  "a \<le> max_attempts \<Longrightarrow> fst (scroll_loop page prev a) \<le> max_attempts
     \<and> (snd (scroll_loop page prev a) \<noteq> Capped \<longrightarrow> fst (scroll_loop page prev a) < max_attempts)"
proof (induction page prev a rule: scroll_loop.induct)
  case (1 page prev a)
  show ?case
  proof (cases "a < max_attempts")
    case False
    then show ?thesis using "1.prems" by (simp add: scroll_loop_cap)
  next
    case True
    show ?thesis
    proof (cases "page a")
      case (Inl e)
      then show ?thesis using True by (simp add: scroll_loop_error)
    next
      case (Inr cur)
      show ?thesis
      proof (cases "cur = prev")
        case True
        then show ?thesis using \<open>a < max_attempts\<close> Inr
          by (simp add: scroll_loop_equal)
      next
        case False
        have "a + 1 \<le> max_attempts" using \<open>a < max_attempts\<close> by simp
        then show ?thesis
          using "1.IH" [OF \<open>a < max_attempts\<close> Inr False] \<open>a < max_attempts\<close> Inr False
          by (simp add: scroll_loop_step [of a page cur prev])
      qed
    qed
  qed
qed

lemma scroll_loop_stable_by:
  "a \<le> i \<Longrightarrow> i < max_attempts \<Longrightarrow> \<forall>j. a \<le> j \<and> j \<le> i \<longrightarrow> page j = Inr (h j) \<Longrightarrow>
   h i = (if i = a then prev else h (i - 1)) \<Longrightarrow>
   snd (scroll_loop page prev a) = Stable \<and> fst (scroll_loop page prev a) \<le> i"
proof (induction "i - a" arbitrary: a prev)
  case 0
  then have "a = i" by simp
  then show ?case using 0 by (simp add: scroll_loop_equal)
next
  case (Suc n)
  then have lt: "a < i" by simp
  have pa: "page a = Inr (h a)" using Suc.prems by simp
  show ?case
  proof (cases "h a = prev")
    case True
    then show ?thesis using pa lt Suc.prems(2)
      by (simp add: scroll_loop_equal)
  next
    case False
    have "snd (scroll_loop page (h a) (a + 1)) = Stable
        \<and> fst (scroll_loop page (h a) (a + 1)) \<le> i"
    proof (rule Suc.hyps(1))
      show "n = i - (a + 1)" using Suc.hyps(2) by simp
      show "a + 1 \<le> i" using lt by simp
      show "i < max_attempts" by (rule Suc.prems(2))
      show "\<forall>j. a + 1 \<le> j \<and> j \<le> i \<longrightarrow> page j = Inr (h j)" using Suc.prems(3) by simp
      show "h i = (if i = a + 1 then h a else h (i - 1))" using Suc.prems(4) lt by auto
    qed
    then show ?thesis using pa lt Suc.prems(2) False
      by (simp add: scroll_loop_step [of a page "h a" prev])
  qed
qed

lemma scroll_loop_stable_at:
  "a \<le> i \<Longrightarrow> i < max_attempts \<Longrightarrow> \<forall>j. a \<le> j \<and> j \<le> i \<longrightarrow> page j = Inr (h j) \<Longrightarrow>
   h i = (if i = a then prev else h (i - 1)) \<Longrightarrow>
   \<forall>j. a \<le> j \<and> j < i \<longrightarrow> h j \<noteq> (if j = a then prev else h (j - 1)) \<Longrightarrow>
   scroll_loop page prev a = (i, Stable)"
proof (induction "i - a" arbitrary: a prev)
  case 0
  then have "a = i" by simp
  then show ?case using 0 by (simp add: scroll_loop_equal)
next
  case (Suc n)
  then have lt: "a < i" by simp
  have pa: "page a = Inr (h a)" using Suc.prems by simp
  have ne: "h a \<noteq> prev" using Suc.prems(5) lt by auto
  have "scroll_loop page (h a) (a + 1) = (i, Stable)"
  proof (rule Suc.hyps(1))
    show "n = i - (a + 1)" using Suc.hyps(2) by simp
    show "a + 1 \<le> i" using lt by simp
    show "i < max_attempts" by (rule Suc.prems(2))
    show "\<forall>j. a + 1 \<le> j \<and> j \<le> i \<longrightarrow> page j = Inr (h j)" using Suc.prems(3) by simp
    show "h i = (if i = a + 1 then h a else h (i - 1))" using Suc.prems(4) lt by auto
    show "\<forall>j. a + 1 \<le> j \<and> j < i \<longrightarrow> h j \<noteq> (if j = a + 1 then h a else h (j - 1))"
    proof (intro allI impI)
      fix j assume j: "a + 1 \<le> j \<and> j < i"
      then have "a \<le> j \<and> j < i" by simp
      then have "h j \<noteq> (if j = a then prev else h (j - 1))"
        using Suc.prems(5) by blast
      moreover have "j \<noteq> a" using j by simp
      ultimately show "h j \<noteq> (if j = a + 1 then h a else h (j - 1))"
        by (cases "j = a + 1") simp_all
    qed
  qed
  then show ?case using pa lt Suc.prems(2) ne
    by (simp add: scroll_loop_step [of a page "h a" prev])
qed

lemma scroll_loop_capped:
  "a \<le> max_attempts \<Longrightarrow>
   \<forall>j. a \<le> j \<and> j < max_attempts \<longrightarrow>
     page j = Inr (h j) \<and> h j \<noteq> (if j = a then prev else h (j - 1)) \<Longrightarrow>
   scroll_loop page prev a = (max_attempts, Capped)"
proof (induction "max_attempts - a" arbitrary: a prev)
  case 0
  then have "a = max_attempts" by simp
  then show ?case by (simp add: scroll_loop_cap)
next
  case (Suc n)
  then have lt: "a < max_attempts" by simp
  have pa: "page a = Inr (h a)" and ne: "h a \<noteq> prev" using Suc.prems(2) lt by auto
  have "scroll_loop page (h a) (a + 1) = (max_attempts, Capped)"
  proof (rule Suc.hyps(1))
    show "n = max_attempts - (a + 1)" using Suc.hyps(2) by simp
    show "a + 1 \<le> max_attempts" using lt by simp
    show "\<forall>j. a + 1 \<le> j \<and> j < max_attempts \<longrightarrow>
        page j = Inr (h j) \<and> h j \<noteq> (if j = a + 1 then h a else h (j - 1))"
    proof (intro allI impI)
      fix j assume j: "a + 1 \<le> j \<and> j < max_attempts"
      then have "a \<le> j \<and> j < max_attempts" by simp
      then have "page j = Inr (h j) \<and> h j \<noteq> (if j = a then prev else h (j - 1))"
        using Suc.prems(2) by blast
      moreover have "j \<noteq> a" using j by simp
      ultimately show "page j = Inr (h j) \<and> h j \<noteq> (if j = a + 1 then h a else h (j - 1))"
        by (cases "j = a + 1") simp_all
    qed
  qed
  then show ?case using pa lt ne by (simp add: scroll_loop_step [of a page "h a" prev])
qed

text \<open>
  Claim C7. For every page, the loop ends with at most 50 attempts counted, and with
  fewer than 50 unless the cap ended it. If the samples up to number \<open>i + 1\<close> are read
  without error and samples \<open>i\<close> and \<open>i + 1\<close> are equal, the loop ends as stable with
  at most \<open>i + 1\<close> attempts counted: it reads no sample behind the first equal pair.
  More exactly, with 0 taken as the height before the first sample: if sample \<open>i\<close> is
  the first that equals the one before it, the loop ends as stable with the counter at
  \<open>i\<close>; if none of the first 50 samples equals the one before it, the cap ends the loop
  with the counter at 50. For the heights 100, 200, 200 the loop ends as stable with
  the counter at 2.
\<close>

theorem scroll_to_bottom_halts:
  "fst (scroll_to_bottom page) \<le> 50
   \<and> (snd (scroll_to_bottom page) \<noteq> Capped \<longrightarrow> fst (scroll_to_bottom page) < 50)
   \<and> (\<forall>i h. i + 1 < 50 \<and> (\<forall>j \<le> i + 1. page j = Inr (h j)) \<and> h (i + 1) = h i
         \<longrightarrow> snd (scroll_to_bottom page) = Stable \<and> fst (scroll_to_bottom page) \<le> i + 1)
   \<and> (\<forall>i h. i < 50 \<and> (\<forall>j \<le> i. page j = Inr (h j))
            \<and> h i = (if i = 0 then 0 else h (i - 1))
            \<and> (\<forall>j < i. h j \<noteq> (if j = 0 then 0 else h (j - 1)))
         \<longrightarrow> scroll_to_bottom page = (i, Stable))
   \<and> (\<forall>h. (\<forall>j < 50. page j = Inr (h j) \<and> h j \<noteq> (if j = 0 then 0 else h (j - 1)))
         \<longrightarrow> scroll_to_bottom page = (50, Capped))
   \<and> (page 0 = Inr 100 \<and> page 1 = Inr 200 \<and> page 2 = Inr 200
         \<longrightarrow> scroll_to_bottom page = (2, Stable))"
proof -
  have b: "fst (scroll_to_bottom page) \<le> 50
      \<and> (snd (scroll_to_bottom page) \<noteq> Capped \<longrightarrow> fst (scroll_to_bottom page) < 50)"
    using scroll_loop_bound [of 0 page 0] by (simp add: scroll_to_bottom_def max_attempts_def)
  have by_pair: "snd (scroll_to_bottom page) = Stable \<and> fst (scroll_to_bottom page) \<le> i + 1"
    if "i + 1 < 50" and "\<forall>j \<le> i + 1. page j = Inr (h j)" and "h (i + 1) = h i" for i h
    using scroll_loop_stable_by [of 0 "i + 1" page h 0] that
    by (simp add: scroll_to_bottom_def max_attempts_def)
  have at: "scroll_to_bottom page = (i, Stable)"
    if "i < 50" and "\<forall>j \<le> i. page j = Inr (h j)"
      and "h i = (if i = 0 then 0 else h (i - 1))"
      and "\<forall>j < i. h j \<noteq> (if j = 0 then 0 else h (j - 1))" for i h
    using scroll_loop_stable_at [of 0 i page h 0] that
    by (simp add: scroll_to_bottom_def max_attempts_def)
  have cap: "scroll_to_bottom page = (50, Capped)"
    if "\<forall>j < 50. page j = Inr (h j) \<and> h j \<noteq> (if j = 0 then 0 else h (j - 1))" for h
    using scroll_loop_capped [of 0 page h 0] that
    by (simp add: scroll_to_bottom_def max_attempts_def)
  have ex: "scroll_to_bottom page = (2, Stable)"
    if p: "page 0 = Inr 100 \<and> page 1 = Inr 200 \<and> page 2 = Inr 200"
  proof -
    let ?h = "\<lambda>j :: nat. if j = 0 then (100 :: int) else 200"
    have "\<forall>j \<le> 2. page j = Inr (?h j)"
    proof (intro allI impI)
      fix j :: nat assume "j \<le> 2"
      then have "j = 0 \<or> j = 1 \<or> j = 2" by auto
      then show "page j = Inr (?h j)" using p by auto
    qed
    moreover have "\<forall>j < 2. ?h j \<noteq> (if j = 0 then 0 else ?h (j - 1))"
    proof (intro allI impI)
      fix j :: nat assume "j < 2"
      then have "j = 0 \<or> j = 1" by auto
      then show "?h j \<noteq> (if j = 0 then 0 else ?h (j - 1))" by auto
    qed
    ultimately show ?thesis using at [of 2 ?h] by simp
  qed
  show ?thesis using b by_pair at cap ex by blast
qed

theorem scroll_to_bottom_halts_witness:
  "scroll_to_bottom (\<lambda>n. Inr (if n = 0 then 100 else 200)) = (2, Stable)
   \<and> scroll_to_bottom (\<lambda>n. Inr (int n + 1)) = (50, Capped)"
proof -
  have one: "scroll_to_bottom (\<lambda>n. Inr (if n = 0 then 100 else 200)) = (2, Stable)"
    using scroll_to_bottom_halts [of "\<lambda>n. Inr (if n = 0 then 100 else 200)"] by simp
  have two: "scroll_to_bottom (\<lambda>n. Inr (int n + 1)) = (50, Capped)"
  proof -
    have grow: "\<forall>j < 50. (\<lambda>n. Inr (int n + 1) :: error + int) j = Inr (int j + 1)
        \<and> int j + 1 \<noteq> (if j = 0 then 0 else int (j - 1) + 1)"
      by auto
    have "\<forall>h. (\<forall>j < 50. (\<lambda>n. Inr (int n + 1) :: error + int) j = Inr (h j)
              \<and> h j \<noteq> (if j = 0 then 0 else h (j - 1)))
          \<longrightarrow> scroll_to_bottom (\<lambda>n. Inr (int n + 1)) = (50, Capped)"
      using scroll_to_bottom_halts [of "\<lambda>n. Inr (int n + 1)"] by blast
    from this [rule_format, of "\<lambda>j. int j + 1"] grow show ?thesis by blast
  qed
  show ?thesis using one two by simp
qed


section \<open>The label/value pass\<close>

declare sub_newlines.simps [simp del]




















section \<open>The detail page\<close>

lemma dict_update_get:
  "distinct (dict_keys other) \<Longrightarrow>
   dict_get (dict_update d other) k =
     (case dict_get other k of Some v \<Rightarrow> Some v | None \<Rightarrow> dict_get d k)"
proof (induction other arbitrary: d)
  case Nil
  show ?case by (simp add: dict_update_def dict_get_def)
next
  case (Cons p other)
  obtain a b where p: "p = (a, b)" by (cases p)
  from Cons.prems have d: "distinct (dict_keys other)" and a: "a \<notin> set (dict_keys other)"
    by (simp_all add: p dict_keys_Cons)
  have none: "dict_get other a = None" using a by (simp add: dict_get_None)
  have ih: "dict_get (dict_update (dict_set a b d) other) k =
     (case dict_get other k of Some v \<Rightarrow> Some v | None \<Rightarrow> dict_get (dict_set a b d) k)"
    using d by (rule Cons.IH)
  have step: "dict_update d ((a, b) # other) = dict_update (dict_set a b d) other"
    by (simp add: dict_update_def)
  have get: "dict_get ((a, b) # other) k = (if k = a then Some b else dict_get other k)"
    by (simp add: dict_get_def)
  show ?case
    unfolding p step ih get using none
    by (cases "k = a") (simp_all add: dict_get_set split: option.splits)
qed

lemma dict_update_distinct:
  "distinct (dict_keys d) \<Longrightarrow> distinct (dict_keys (dict_update d other))"
proof (induction other arbitrary: d)
  case Nil
  then show ?case by (simp add: dict_update_def)
next
  case (Cons p other)
  obtain a b where p: "p = (a, b)" by (cases p)
  have "distinct (dict_keys (dict_set a b d))" using Cons.prems by (rule dict_set_distinct)
  then have "distinct (dict_keys (dict_update (dict_set a b d) other))" by (rule Cons.IH)
  then show ?case by (simp add: dict_update_def p)
qed

lemma dict_update_keys:
  "set (dict_keys (dict_update d other)) = set (dict_keys d) \<union> set (dict_keys other)"
proof (induction other arbitrary: d)
  case Nil
  show ?case by (simp add: dict_update_def dict_keys_Nil)
next
  case (Cons p other)
  obtain a b where p: "p = (a, b)" by (cases p)
  have "set (dict_keys (dict_update (dict_set a b d) other))
      = set (dict_keys (dict_set a b d)) \<union> set (dict_keys other)"
    by (rule Cons.IH)
  then show ?case by (auto simp: dict_update_def p dict_keys_set dict_keys_Cons)
qed

lemma parse_meta_loop_distinct:
  "parse_meta_loop re html patterns acc = Inr meta \<Longrightarrow> distinct (dict_keys acc) \<Longrightarrow>
   distinct (dict_keys meta)"
proof (induction patterns arbitrary: acc)
  case Nil
  then show ?case by simp
next
  case (Cons p patterns)
  obtain key pat where p: "p = (key, pat)" by (cases p)
  show ?case
  proof (cases "re pat html")
    case (Inl e)
    with Cons.prems show ?thesis by (simp add: p)
  next
    case (Inr m)
    show ?thesis
    proof (cases m)
      case None
      with Cons.prems Inr have "parse_meta_loop re html patterns acc = Inr meta"
        by (simp add: p)
      then show ?thesis using Cons.prems(2) by (rule Cons.IH)
    next
      case (Some g)
      with Cons.prems Inr have
        "parse_meta_loop re html patterns (dict_set key (strip (sub_tags g)) acc) = Inr meta"
        by (simp add: p)
      then show ?thesis
        using dict_set_distinct [OF Cons.prems(2)] by (rule Cons.IH)
    qed
  qed
qed

lemma parse_meta_loop_get:
  "parse_meta_loop re html patterns acc = Inr meta \<Longrightarrow> distinct (dict_keys patterns) \<Longrightarrow>
   dict_get meta k =
     (case dict_get patterns k of
        None \<Rightarrow> dict_get acc k
      | Some pat \<Rightarrow>
          (case re pat html of
             Inr (Some g) \<Rightarrow> Some (strip (sub_tags g))
           | _ \<Rightarrow> dict_get acc k))"
proof (induction patterns arbitrary: acc)
  case Nil
  then show ?case by (simp add: dict_get_def)
next
  case (Cons p patterns)
  obtain key pat where p: "p = (key, pat)" by (cases p)
  from Cons.prems(2) have d: "distinct (dict_keys patterns)"
    and nk: "key \<notin> set (dict_keys patterns)"
    by (simp_all add: p dict_keys_Cons)
  have none: "dict_get patterns key = None" using nk by (simp add: dict_get_None)
  have get: "dict_get ((key, pat) # patterns) k = (if k = key then Some pat else dict_get patterns k)"
    by (simp add: dict_get_def)
  show ?case
  proof (cases "re pat html")
    case (Inl e)
    with Cons.prems show ?thesis by (simp add: p)
  next
    case (Inr m)
    show ?thesis
    proof (cases m)
      case None
      with Cons.prems Inr have "parse_meta_loop re html patterns acc = Inr meta"
        by (simp add: p)
      from Cons.IH [OF this d] show ?thesis
        unfolding p get using none Inr None by (cases "k = key") simp_all
    next
      case (Some g)
      with Cons.prems Inr have
        "parse_meta_loop re html patterns (dict_set key (strip (sub_tags g)) acc) = Inr meta"
        by (simp add: p)
      from Cons.IH [OF this d] show ?thesis
        unfolding p get using none Inr Some
        by (cases "k = key") (simp_all add: dict_get_set split: option.splits sum.splits)
    qed
  qed
qed

text \<open>
  Claim C6. Let the configuration name a detail URL, let the fetch of the detail page
  give \<open>html\<close> and the meta pass give \<open>meta\<close>. Then \<open>crawl_detail\<close> returns a record
  \<open>data\<close> in which the key of the identifier field (\<open>original_id\<close> when none is
  configured) holds the item identifier, whatever the passes found under that key;
  every other key holds the value of the meta pass when the meta pass has the key,
  and the value of the label/value pass otherwise. The patterns of the meta pass
  always hold one under \<open>title\<close>, and the meta pass has, for each pattern that matches,
  the group of the match that \<open>re.search\<close> finds, stripped of markup and trimmed.
\<close>

theorem crawl_detail_merge:
  assumes du: "detail_url config = Some du"
    and fetch: "fetch_html (get_base_url config @ str_replace ''{id}'' item_id du) = Inr html"
    and meta: "parse_meta re_search html
        (case meta_patterns config of None \<Rightarrow> Some [] | Some mp \<Rightarrow> Some mp) = Inr meta"
  shows "\<exists>data. crawl_detail fetch_html re_search config item_id = Inr data
      \<and> (\<forall>k. dict_get data k =
            (if k = (case id_field config of None \<Rightarrow> ''original_id'' | Some f \<Rightarrow> f)
             then Some item_id
             else (case dict_get meta k of
                     Some v \<Rightarrow> Some v
                   | None \<Rightarrow> dict_get (parse_dt_dd html) k)))
      \<and> ''title'' \<in> set (dict_keys (dict_update default_meta_patterns
            (case meta_patterns config of None \<Rightarrow> [] | Some mp \<Rightarrow> mp)))
      \<and> (\<forall>k. dict_get meta k =
            (case dict_get (dict_update default_meta_patterns
                    (case meta_patterns config of None \<Rightarrow> [] | Some mp \<Rightarrow> mp)) k of
               None \<Rightarrow> None
             | Some pat \<Rightarrow>
                 (case re_search pat html of
                    Inr (Some g) \<Rightarrow> Some (strip (sub_tags g))
                  | _ \<Rightarrow> None)))"
proof -
  let ?mp = "case meta_patterns config of None \<Rightarrow> [] | Some mp \<Rightarrow> mp"
  let ?patterns = "dict_update default_meta_patterns ?mp"
  let ?idf = "case id_field config of None \<Rightarrow> ''original_id'' | Some f \<Rightarrow> f"
  let ?data = "dict_set ?idf item_id (dict_update (parse_dt_dd html) meta)"
  have arg: "(case meta_patterns config of None \<Rightarrow> Some [] | Some mp \<Rightarrow> Some mp) = Some ?mp"
    by (simp split: option.splits)
  have loop: "parse_meta_loop re_search html ?patterns [] = Inr meta"
    using meta unfolding arg by (simp add: parse_meta_def)
  have run: "crawl_detail fetch_html re_search config item_id = Inr ?data"
    using du fetch meta by (simp add: crawl_detail_def Let_def)
  have dm: "distinct (dict_keys meta)"
    using loop by (rule parse_meta_loop_distinct) (simp add: dict_keys_Nil)
  have merged: "dict_get ?data k =
      (if k = ?idf then Some item_id
       else (case dict_get meta k of Some v \<Rightarrow> Some v | None \<Rightarrow> dict_get (parse_dt_dd html) k))"
    for k
    by (simp add: dict_get_set dict_update_get [OF dm])
  have dp: "distinct (dict_keys ?patterns)"
    by (rule dict_update_distinct) (simp add: default_meta_patterns_def dict_keys_def)
  have title: "''title'' \<in> set (dict_keys ?patterns)"
    by (simp add: dict_update_keys default_meta_patterns_def dict_keys_Cons)
  have metas: "dict_get meta k =
      (case dict_get ?patterns k of
         None \<Rightarrow> None
       | Some pat \<Rightarrow>
           (case re_search pat html of Inr (Some g) \<Rightarrow> Some (strip (sub_tags g)) | _ \<Rightarrow> None))"
    for k
  proof -
    have e: "dict_get ([] :: (string, string) dict) k = None" by (simp add: dict_get_def)
    show ?thesis using parse_meta_loop_get [OF loop dp, of k] unfolding e .
  qed
  show ?thesis using run merged title metas by blast
qed

theorem crawl_detail_merge_witness:
  "\<exists>data. crawl_detail detail_fetch example_search example_config ''7'' = Inr data
      \<and> dict_get data ''title'' = Some ''Nurse wanted''
      \<and> dict_get data ''original_id'' = Some ''7''
      \<and> dict_get data ''area'' = Some ''Kobe''"
proof -
  let ?html = "''<title>Nurse <b>wanted</b></title><dt>title</dt><dd>old</dd>''
                @ ''<dt>original_id</dt><dd>9</dd><dt>area</dt><dd>Kobe</dd>''"
  let ?meta = "[(''title'', ''Nurse wanted'')]"
  have du: "detail_url example_config = Some ''/job/{id}''"
    by (simp add: example_config_def)
  have fetch: "detail_fetch (get_base_url example_config @ str_replace ''{id}'' ''7'' ''/job/{id}'')
      = Inr ?html"
    by code_simp
  have meta: "parse_meta example_search ?html
      (case meta_patterns example_config of None \<Rightarrow> Some [] | Some mp \<Rightarrow> Some mp) = Inr ?meta"
    by code_simp
  have idf: "id_field example_config = None" by (simp add: example_config_def)
  have dt: "dict_get (parse_dt_dd ?html) ''title'' = Some ''old''"
    "dict_get (parse_dt_dd ?html) ''original_id'' = Some ''9''"
    "dict_get (parse_dt_dd ?html) ''area'' = Some ''Kobe''"
    by code_simp+
  from crawl_detail_merge [where config = example_config and fetch_html = detail_fetch
      and re_search = example_search and item_id = "''7''" and du = "''/job/{id}''"
      and html = ?html and meta = ?meta, OF du fetch meta]
  obtain data where run: "crawl_detail detail_fetch example_search example_config ''7'' = Inr data"
    and get: "\<And>k. dict_get data k =
            (if k = (case id_field example_config of None \<Rightarrow> ''original_id'' | Some f \<Rightarrow> f)
             then Some ''7''
             else (case dict_get ?meta k of
                     Some v \<Rightarrow> Some v
                   | None \<Rightarrow> dict_get (parse_dt_dd ?html) k))"
    by blast
  have "dict_get data ''title'' = Some ''Nurse wanted''"
    unfolding get idf by (simp add: dict_get_def)
  moreover have "dict_get data ''original_id'' = Some ''7''"
    unfolding get idf by simp
  moreover have "dict_get data ''area'' = Some ''Kobe''"
    unfolding get idf dt by (simp add: dict_get_def)
  ultimately show ?thesis using run by blast
qed


end
